theory Spec2Isabelle
  imports Complex_Main "HOL-Library.Multiset"
begin

section \<open>The random source\<close>

text \<open>
  \<^verbatim>\<open>Math.random()\<close> returns a number \<open>u\<close> with \<open>0 \<le> u < 1\<close>. The engine only ever
  uses it as \<^verbatim>\<open>Math.floor(Math.random() * n)\<close>, an index into a list of length \<open>n\<close>.
  The draw \<open>u\<close> is an explicit argument of every function that calls \<^verbatim>\<open>Math.random()\<close>;
  a function that draws several times takes the sequence of its draws, \<open>rnd 0\<close> first.
  The draw is a real number and the product is exact: the rounding of the floating-point
  product is not modelled.
\<close>

definition randomIndex :: "real \<Rightarrow> nat \<Rightarrow> nat" where
  "randomIndex u n = nat \<lfloor>u * real n\<rfloor>"

definition unitDraws :: "(nat \<Rightarrow> real) \<Rightarrow> bool" where
  "unitDraws rnd = (\<forall>i. 0 \<le> rnd i \<and> rnd i < 1)"

section \<open>CompositionPlanner: \<^verbatim>\<open>chooseComposition\<close> (run_job.mjs)\<close>

record composition =
  images :: int
  videos :: int

text \<open>The \<^verbatim>\<open>for\<close> loop over the candidates 1, 2, 3 that fills \<^verbatim>\<open>possibleImageCounts\<close>.\<close>

definition possibleImageCounts :: "int \<Rightarrow> int \<Rightarrow> int list" where
  "possibleImageCounts imageCount videoCount =
     filter (\<lambda>candidate. candidate \<le> imageCount \<and> 4 - candidate \<le> videoCount) [1, 2, 3]"

definition chooseComposition :: "real \<Rightarrow> int \<Rightarrow> int \<Rightarrow> composition option" where
  "chooseComposition u imageCount videoCount =
     (let total = imageCount + videoCount in
      if total < 4 then None
      else if imageCount > 0 \<and> videoCount > 0 \<and> possibleImageCounts imageCount videoCount \<noteq> []
      then (let possible = possibleImageCounts imageCount videoCount;
                imagePick = possible ! randomIndex u (length possible)
            in Some \<lparr>images = imagePick, videos = 4 - imagePick\<rparr>)
      else if imageCount \<ge> 4 then Some \<lparr>images = 4, videos = 0\<rparr>
      else if videoCount \<ge> 4 then Some \<lparr>images = 0, videos = 4\<rparr>
      else None)"

text \<open>The feasible set, in the words of the specification.\<close>

definition feasible :: "int \<Rightarrow> int \<Rightarrow> int set" where
  "feasible imageCount videoCount =
     {k. 1 \<le> k \<and> k \<le> 3 \<and> k \<le> imageCount \<and> 4 - k \<le> videoCount}"

section \<open>Errors\<close>

text \<open>
  Every \<^verbatim>\<open>throw\<close> of the engine is a value of \<open>error\<close>; a function that can throw returns
  \<open>error + 'a\<close>, with \<open>Inl\<close> for the exception. \<open>SysError\<close> is a failed system call
  with its \<^verbatim>\<open>error.code\<close>.
\<close>

datatype errno = EEXIST | ENOENT | EXDEV | ESRCH | EPERM | EACCES | EISDIR | EIO

datatype error =
    CannotPick int nat
  | CaptionsNotArray
  | InvalidCaptionEntry nat
  | CaptionWithoutText nat
  | NoCaptionEntries
  | HashtagsNotArray
  | SysError errno

section \<open>MediaSelector: \<^verbatim>\<open>pickRandomItems\<close> and \<^verbatim>\<open>randomIntInclusive\<close> (run_job.mjs)\<close>

definition randomIntInclusive :: "real \<Rightarrow> int \<Rightarrow> int \<Rightarrow> int" where
  "randomIntInclusive u lo hi = \<lfloor>u * real_of_int (hi - lo + 1)\<rfloor> + lo"

text \<open>\<^verbatim>\<open>pool.splice(idx, 1)\<close>: the pool without its element at \<open>idx\<close>.\<close>

definition splice1 :: "'a list \<Rightarrow> nat \<Rightarrow> 'a list" where
  "splice1 pool idx = take idx pool @ drop (Suc idx) pool"

text \<open>
  The \<^verbatim>\<open>for\<close> loop of \<^verbatim>\<open>pickRandomItems\<close>, with the iterations left as last argument.
  The loop runs only with \<open>count \<le> items.length\<close> (\<open>cnt\<close> below), so the pool is never empty when an
  element is read.
\<close>

fun pickLoop :: "(nat \<Rightarrow> real) \<Rightarrow> 'a list \<Rightarrow> 'a list \<Rightarrow> nat \<Rightarrow> 'a list" where
  "pickLoop rnd pool selected 0 = selected"
| "pickLoop rnd pool selected (Suc n) =
     (let idx = randomIndex (rnd 0) (length pool)
      in pickLoop (\<lambda>i. rnd (Suc i)) (splice1 pool idx) (selected @ [pool ! idx]) n)"

definition pickRandomItems :: "(nat \<Rightarrow> real) \<Rightarrow> 'a list \<Rightarrow> int \<Rightarrow> error + 'a list" where
  "pickRandomItems rnd items cnt =
     (if cnt \<le> 0 then Inr []
      else if cnt > int (length items) then Inl (CannotPick cnt (length items))
      else Inr (pickLoop rnd items [] (nat cnt)))"

section \<open>HashtagPicker: \<^verbatim>\<open>pickHashtags\<close> (run_job.mjs)\<close>

definition pickHashtags :: "(nat \<Rightarrow> real) \<Rightarrow> string list \<Rightarrow> error + string list" where
  "pickHashtags rnd hashtags =
     (if length hashtags = 0 then Inr []
      else (let maxPick = min 5 (int (length hashtags));
                minPick = min 3 maxPick;
                pickCount = randomIntInclusive (rnd 0) minPick maxPick
            in pickRandomItems (\<lambda>i. rnd (Suc i)) hashtags pickCount))"

section \<open>Decimal numerals\<close>

text \<open>
  \<^verbatim>\<open>String(n)\<close> for a non-negative integer, as in \<^verbatim>\<open>`${process.pid}`\<close> and
  \<^verbatim>\<open>`_${attempt}`\<close>, and the value \<^verbatim>\<open>Number\<close> gives to a string of decimal digits.
\<close>

definition digitChar :: "nat \<Rightarrow> char" where
  "digitChar d = char_of (48 + d)"

fun decimal :: "nat \<Rightarrow> string" where
  "decimal n = (if n < 10 then [digitChar n] else decimal (n div 10) @ [digitChar (n mod 10)])"

declare decimal.simps [simp del]

definition isDigit :: "char \<Rightarrow> bool" where
  "isDigit c = (48 \<le> (of_char c :: nat) \<and> (of_char c :: nat) \<le> 57)"

definition digitsValue :: "string \<Rightarrow> nat" where
  "digitsValue s = foldl (\<lambda>acc c. 10 * acc + ((of_char c :: nat) - 48)) 0 s"

section \<open>JavaScript strings and JSON values\<close>

text \<open>
  A string is the list of its code units, here the code units below 256. White space is
  what \<^verbatim>\<open>String.prototype.trim\<close> and the regular expression class \<^verbatim>\<open>\s\<close> take as such
  in that range: TAB, LF, VT, FF, CR, SPACE and NO-BREAK SPACE.
\<close>

definition isWhiteSpace :: "char \<Rightarrow> bool" where
  "isWhiteSpace c = (c \<in> set [CHR 0x09, CHR 0x0A, CHR 0x0B, CHR 0x0C, CHR 0x0D, CHR 0x20, CHR 0xA0])"

definition trim :: "string \<Rightarrow> string" where
  "trim s = rev (dropWhile isWhiteSpace (rev (dropWhile isWhiteSpace s)))"

text \<open>
  What \<^verbatim>\<open>JSON.parse\<close> returns, and \<^verbatim>\<open>undefined\<close> for the value of a property that an
  object does not have. A number is \<open>JNum n\<close> when it is the integer \<open>n\<close> and \<open>JFrac\<close>
  otherwise (its value is never inspected); it is a JavaScript number, to which
  \<^verbatim>\<open>JSON.parse\<close> has rounded the numeral of the file. An object is the association list of
  its properties, each key once.
\<close>

datatype jsval =
    JUndefined
  | JNull
  | JBool bool
  | JNum int
  | JFrac
  | JStr string
  | JArr "jsval list"
  | JObj "(string \<times> jsval) list"

text \<open>\<^verbatim>\<open>entry.key\<close>, for the keys the code reads (none of them is a property of an array).\<close>

fun getProp :: "jsval \<Rightarrow> string \<Rightarrow> jsval" where
  "getProp (JObj props) key = (case map_of props key of Some v \<Rightarrow> v | None \<Rightarrow> JUndefined)"
| "getProp _ key = JUndefined"

text \<open>\<^verbatim>\<open>entry && typeof entry === 'object'\<close>: arrays and objects, not \<^verbatim>\<open>null\<close>.\<close>

fun isObject :: "jsval \<Rightarrow> bool" where
  "isObject (JArr _) = True"
| "isObject (JObj _) = True"
| "isObject _ = False"

text \<open>\<^verbatim>\<open>Boolean(v)\<close>. A number that is not an integer is not zero (nor \<^verbatim>\<open>NaN\<close>, in JSON).\<close>

fun Boolean_js :: "jsval \<Rightarrow> bool" where
  "Boolean_js JUndefined = False"
| "Boolean_js JNull = False"
| "Boolean_js (JBool b) = b"
| "Boolean_js (JNum n) = (n \<noteq> 0)"
| "Boolean_js JFrac = True"
| "Boolean_js (JStr s) = (s \<noteq> [])"
| "Boolean_js (JArr _) = True"
| "Boolean_js (JObj _) = True"

text \<open>\<^verbatim>\<open>v ?? d\<close>.\<close>

definition nullish :: "jsval \<Rightarrow> jsval \<Rightarrow> jsval" where
  "nullish v d = (if v = JUndefined \<or> v = JNull then d else v)"

text \<open>
  \<^verbatim>\<open>Number(s)\<close> for a string: the decimal value of a non-empty string of digits (exact
  below \<open>2^53\<close>), and the parameter \<open>coerce\<close> for every other string.
\<close>

definition Number_str :: "(jsval \<Rightarrow> int option) \<Rightarrow> string \<Rightarrow> int option" where
  "Number_str coerce s =
     (if s \<noteq> [] \<and> (\<forall>c \<in> set s. isDigit c) then Some (int (digitsValue s))
      else coerce (JStr s))"

text \<open>
  \<^verbatim>\<open>Number(v)\<close> when that is an integer, \<open>None\<close> when it is \<^verbatim>\<open>NaN\<close>, infinite or has a
  fractional part. What \<^verbatim>\<open>Number\<close> makes of an array, of an object or of a string
  that is not a decimal numeral is the parameter \<open>coerce\<close>. So is what it makes of a
  decimal numeral from \<open>2^53\<close> on, which it rounds to the nearest number.
\<close>

fun Number_js :: "(jsval \<Rightarrow> int option) \<Rightarrow> jsval \<Rightarrow> int option" where
  "Number_js coerce JUndefined = None"
| "Number_js coerce JNull = Some 0"
| "Number_js coerce (JBool b) = Some (if b then 1 else 0)"
| "Number_js coerce (JNum n) = Some n"
| "Number_js coerce JFrac = None"
| "Number_js coerce (JStr s) =
     (case Number_str coerce s of
        Some n \<Rightarrow> if n < 2 ^ 53 then Some n else coerce (JStr s)
      | None \<Rightarrow> None)"
| "Number_js coerce v = coerce v"

section \<open>CaptionRotator: the caption bank\<close>

text \<open>
  A caption entry \<^verbatim>\<open>{id, text, used, used_at}\<close>. The engine keeps whatever JSON value a
  record has as \<^verbatim>\<open>id\<close>; the wizard's ids are integers.
\<close>

record 'i caption_entry =
  cid :: 'i
  ctext :: string
  used :: bool
  used_at :: jsval

text \<open>
  \<^verbatim>\<open>typeof entry.text === 'string' ? entry.text
     : typeof entry.caption === 'string' ? entry.caption : ''\<close>
\<close>

definition textCandidate :: "jsval \<Rightarrow> string" where
  "textCandidate entry =
     (case getProp entry ''text'' of
        JStr s \<Rightarrow> s
      | _ \<Rightarrow> (case getProp entry ''caption'' of JStr s \<Rightarrow> s | _ \<Rightarrow> []))"

subsection \<open>\<^verbatim>\<open>pickCaption\<close> (run_job.mjs)\<close>

definition availableIndexes :: "'i caption_entry list \<Rightarrow> nat list" where
  "availableIndexes state =
     map snd (filter (\<lambda>(entry, index). \<not> used entry) (zip state [0..<length state]))"

definition resetEntry :: "'i caption_entry \<Rightarrow> 'i caption_entry" where
  "resetEntry entry = entry\<lparr>used := False, used_at := JNull\<rparr>"

text \<open>
  \<open>u\<close> is the draw of \<^verbatim>\<open>Math.random()\<close> and \<open>now\<close> the value of
  \<^verbatim>\<open>new Date().toISOString()\<close>.
\<close>

definition pickCaption ::
  "real \<Rightarrow> string \<Rightarrow> 'i caption_entry list \<Rightarrow> error + (string \<times> 'i caption_entry list)" where
  "pickCaption u now captions =
     (let state0 = captions;
          available0 = availableIndexes state0;
          state1 = (if length available0 = 0 then map resetEntry state0 else state0);
          available1 = (if length available0 = 0 then [0..<length state1] else available0)
      in if length available1 = 0 then Inl NoCaptionEntries
         else (let selectedIndex = available1 ! randomIndex u (length available1);
                   state2 = state1[selectedIndex :=
                              (state1 ! selectedIndex)\<lparr>used := True, used_at := JStr now\<rparr>]
               in Inr (ctext (state2 ! selectedIndex), state2)))"

text \<open>
  For the statements about rotation: the bank a pick selects from (reset when no entry is
  unused), the index it selects, and what a sequence of runs does to the bank, run \<open>k\<close>
  drawing \<open>rnd k\<close> at the time \<open>now k\<close>.
\<close>

definition unusedIndexes :: "'i caption_entry list \<Rightarrow> nat set" where
  "unusedIndexes bank = {i. i < length bank \<and> \<not> used (bank ! i)}"

definition resetIfExhausted :: "'i caption_entry list \<Rightarrow> 'i caption_entry list" where
  "resetIfExhausted bank = (if unusedIndexes bank = {} then map resetEntry bank else bank)"

definition selectedIndexOf :: "real \<Rightarrow> 'i caption_entry list \<Rightarrow> nat" where
  "selectedIndexOf u bank =
     (let available = availableIndexes (resetIfExhausted bank)
      in available ! randomIndex u (length available))"

fun bankAfter ::
  "(nat \<Rightarrow> real) \<Rightarrow> (nat \<Rightarrow> string) \<Rightarrow> 'i caption_entry list \<Rightarrow> nat \<Rightarrow> 'i caption_entry list" where
  "bankAfter rnd now bank 0 = bank"
| "bankAfter rnd now bank (Suc k) =
     (case pickCaption (rnd k) (now k) (bankAfter rnd now bank k) of
        Inr (captionText, nextCaptions) \<Rightarrow> nextCaptions
      | Inl e \<Rightarrow> bankAfter rnd now bank k)"

definition selectedAt ::
  "(nat \<Rightarrow> real) \<Rightarrow> (nat \<Rightarrow> string) \<Rightarrow> 'i caption_entry list \<Rightarrow> nat \<Rightarrow> nat" where
  "selectedAt rnd now bank k = selectedIndexOf (rnd k) (bankAfter rnd now bank k)"

subsection \<open>\<^verbatim>\<open>normalizeCaptionEntries\<close> (run_job.mjs)\<close>

text \<open>
  The callback of \<^verbatim>\<open>raw.map\<close>: a string entry, then anything that is not an object
  (an exception), then a record.
\<close>

fun normalizeCaptionEntry :: "nat \<Rightarrow> jsval \<Rightarrow> error + jsval caption_entry" where
  "normalizeCaptionEntry index (JStr s) =
     Inr \<lparr>cid = JNum (int index + 1), ctext = trim s, used = False, used_at = JNull\<rparr>"
| "normalizeCaptionEntry index entry =
     (if \<not> isObject entry then Inl (InvalidCaptionEntry index)
      else (let text = trim (textCandidate entry) in
            if text = [] then Inl (CaptionWithoutText index)
            else Inr \<lparr>cid = nullish (getProp entry ''id'') (JNum (int index + 1)),
                      ctext = text,
                      used = Boolean_js (getProp entry ''used''),
                      used_at = nullish (getProp entry ''used_at'') JNull\<rparr>))"

text \<open>\<^verbatim>\<open>raw.map((entry, index) => ...)\<close>, left to right; the first exception ends it.\<close>

fun mapCaptionEntries :: "nat \<Rightarrow> jsval list \<Rightarrow> error + jsval caption_entry list" where
  "mapCaptionEntries index [] = Inr []"
| "mapCaptionEntries index (entry # rest) =
     (case normalizeCaptionEntry index entry of
        Inl e \<Rightarrow> Inl e
      | Inr x \<Rightarrow> (case mapCaptionEntries (Suc index) rest of
                    Inl e \<Rightarrow> Inl e
                  | Inr xs \<Rightarrow> Inr (x # xs)))"

fun normalizeCaptionEntries :: "jsval \<Rightarrow> error + jsval caption_entry list" where
  "normalizeCaptionEntries (JArr entries) = mapCaptionEntries 0 entries"
| "normalizeCaptionEntries raw = Inl CaptionsNotArray"

text \<open>
  What \<^verbatim>\<open>writeJsonFile(captionsPath, nextCaptions)\<close> stores and the next run's
  \<^verbatim>\<open>readJsonFile(captionsPath)\<close> reads back.
\<close>

definition entryJson :: "jsval caption_entry \<Rightarrow> jsval" where
  "entryJson entry =
     JObj [(''id'', cid entry), (''text'', JStr (ctext entry)),
           (''used'', JBool (used entry)), (''used_at'', used_at entry)]"

definition bankJson :: "jsval caption_entry list \<Rightarrow> jsval" where
  "bankJson captions = JArr (map entryJson captions)"

subsection \<open>\<^verbatim>\<open>normalizeCaptions\<close> (bank_wizard.mjs)\<close>

text \<open>
  \<^verbatim>\<open>x + 1\<close> on a JavaScript number \<open>x \<ge> 0\<close> whose value is an integer. The sum is exact
  below \<open>2^53\<close>. From \<open>2^53\<close> to \<open>2^54\<close> the numbers are the even integers: the sum lies
  halfway between \<open>x\<close> and \<open>x + 2\<close> and is rounded to the one that is a multiple of 4
  (an odd \<open>x\<close> in this range is no number; \<open>x + 1\<close> is one). From \<open>2^54\<close> on the numbers
  are at least 4 apart and the sum is rounded back to \<open>x\<close>.
\<close>

definition plusOne :: "int \<Rightarrow> int" where
  "plusOne x =
     (if x < 2 ^ 53 then x + 1
      else if x < 2 ^ 54 then (if odd x then x + 1 else if x mod 4 = 0 then x else x + 2)
      else x)"

text \<open>
  One iteration of the \<^verbatim>\<open>for\<close> loop, on the pair of \<^verbatim>\<open>fallbackId\<close> and
  \<^verbatim>\<open>normalized\<close>; a \<^verbatim>\<open>continue\<close> leaves the pair as it is. An id is the integer value
  of a JavaScript number; \<^verbatim>\<open>Math.max\<close> is exact.
\<close>

fun captionStep ::
  "(jsval \<Rightarrow> int option) \<Rightarrow> int \<times> int caption_entry list \<Rightarrow> jsval \<Rightarrow> int \<times> int caption_entry list" where
  "captionStep coerce (fallbackId, normalized) (JStr s) =
     (let text = trim s in
      if text = [] then (fallbackId, normalized)
      else (plusOne fallbackId,
            normalized @ [\<lparr>cid = fallbackId, ctext = text, used = False, used_at = JNull\<rparr>]))"
| "captionStep coerce (fallbackId, normalized) entry =
     (if \<not> isObject entry then (fallbackId, normalized)
      else (let text = trim (textCandidate entry) in
            if text = [] then (fallbackId, normalized)
            else (let parsedId = Number_js coerce (getProp entry ''id'');
                      id = (case parsedId of
                              Some n \<Rightarrow> if n > 0 then n else fallbackId
                            | None \<Rightarrow> fallbackId)
                  in (max fallbackId (plusOne id),
                      normalized @ [\<lparr>cid = id, ctext = text,
                                      used = Boolean_js (getProp entry ''used''),
                                      used_at = nullish (getProp entry ''used_at'') JNull\<rparr>]))))"

text \<open>\<^verbatim>\<open>captions.map((entry, index) => ({ ...entry, id: index + 1 }))\<close>\<close>

definition reindexCaptions :: "int caption_entry list \<Rightarrow> int caption_entry list" where
  "reindexCaptions captions =
     map (\<lambda>(index, entry). entry\<lparr>cid := int index + 1\<rparr>) (enumerate 0 captions)"

text \<open>The array \<^verbatim>\<open>normalized\<close> when the loop ends.\<close>

definition stagedCaptions :: "(jsval \<Rightarrow> int option) \<Rightarrow> jsval list \<Rightarrow> int caption_entry list" where
  "stagedCaptions coerce entries = snd (foldl (captionStep coerce) (1, []) entries)"

text \<open>
  \<^verbatim>\<open>Array.prototype.sort\<close> is stable, as \<open>sort_key\<close> is; the sign of \<^verbatim>\<open>a.id - b.id\<close> is
  that of the exact difference.
\<close>

fun normalizeCaptions :: "(jsval \<Rightarrow> int option) \<Rightarrow> jsval \<Rightarrow> int caption_entry list" where
  "normalizeCaptions coerce (JArr entries) =
     reindexCaptions (sort_key cid (stagedCaptions coerce entries))"
| "normalizeCaptions coerce raw = []"

definition wizardEntryJson :: "int caption_entry \<Rightarrow> jsval" where
  "wizardEntryJson entry =
     JObj [(''id'', JNum (cid entry)), (''text'', JStr (ctext entry)),
           (''used'', JBool (used entry)), (''used_at'', used_at entry)]"

definition wizardBankJson :: "int caption_entry list \<Rightarrow> jsval" where
  "wizardBankJson captions = JArr (map wizardEntryJson captions)"

text \<open>
  For the statements: the text the normalizers find in a raw entry (empty when there is
  none), and the id a record carries when it is a positive integer.
\<close>

fun entryText :: "jsval \<Rightarrow> string" where
  "entryText (JStr s) = trim s"
| "entryText entry = (if isObject entry then trim (textCandidate entry) else [])"

fun positiveId :: "(jsval \<Rightarrow> int option) \<Rightarrow> jsval \<Rightarrow> int option" where
  "positiveId coerce (JStr s) = None"
| "positiveId coerce entry =
     (case Number_js coerce (getProp entry ''id'') of
        Some n \<Rightarrow> if n > 0 then Some n else None
      | None \<Rightarrow> None)"

fun entryUsed :: "jsval \<Rightarrow> bool" where
  "entryUsed (JStr s) = False"
| "entryUsed entry = Boolean_js (getProp entry ''used'')"

fun entryUsedAt :: "jsval \<Rightarrow> jsval" where
  "entryUsedAt (JStr s) = JNull"
| "entryUsedAt entry = nullish (getProp entry ''used_at'') JNull"

text \<open>The \<^verbatim>\<open>id\<close> a raw entry carries (a string entry has none).\<close>

fun rawId :: "jsval \<Rightarrow> jsval" where
  "rawId (JStr s) = JUndefined"
| "rawId entry = getProp entry ''id''"

section \<open>HashtagPicker: normalization\<close>

text \<open>\<^verbatim>\<open>tag.replace(/\s+/g, '')\<close> and \<^verbatim>\<open>tag.startsWith('#')\<close>.\<close>

definition removeWhiteSpace :: "string \<Rightarrow> string" where
  "removeWhiteSpace s = filter (\<lambda>c. \<not> isWhiteSpace c) s"

definition startsWithHash :: "string \<Rightarrow> bool" where
  "startsWithHash s = (case s of [] \<Rightarrow> False | c # rest \<Rightarrow> c = CHR ''#'')"

text \<open>
  \<^verbatim>\<open>[...new Set(tags)]\<close>, and the \<^verbatim>\<open>seen\<close> set of the wizard: the first occurrence of
  every element, in order of insertion.
\<close>

definition insertionOrder :: "'a list \<Rightarrow> 'a list" where
  "insertionOrder xs = foldl (\<lambda>seen x. if x \<in> set seen then seen else seen @ [x]) [] xs"

subsection \<open>\<^verbatim>\<open>normalizeHashtags\<close> (run_job.mjs)\<close>

text \<open>The first callback: the string an entry stands for.\<close>

fun hashtagCandidate :: "jsval \<Rightarrow> string" where
  "hashtagCandidate (JStr s) = s"
| "hashtagCandidate entry =
     (if isObject entry then
        (case getProp entry ''tag'' of
           JStr s \<Rightarrow> s
         | _ \<Rightarrow> (case getProp entry ''hashtag'' of
                  JStr s \<Rightarrow> s
                | _ \<Rightarrow> (case getProp entry ''text'' of JStr s \<Rightarrow> s | _ \<Rightarrow> [])))
      else [])"

text \<open>The last callback: \<^verbatim>\<open>tag.startsWith('#') ? tag : `#${tag.replace(/\s+/g, '')}`\<close>.\<close>

definition withHash :: "string \<Rightarrow> string" where
  "withHash tag = (if startsWithHash tag then tag else CHR ''#'' # removeWhiteSpace tag)"

fun normalizeHashtags :: "jsval \<Rightarrow> error + string list" where
  "normalizeHashtags (JArr entries) =
     (let tags = map withHash
                   (filter (\<lambda>tag. tag \<noteq> []) (map trim (map hashtagCandidate entries)))
      in Inr (insertionOrder tags))"
| "normalizeHashtags raw = Inl HashtagsNotArray"

subsection \<open>\<^verbatim>\<open>normalizeHashtag\<close> and \<^verbatim>\<open>normalizeHashtags\<close> (bank_wizard.mjs)\<close>

text \<open>
  \<^verbatim>\<open>String.prototype.toLowerCase\<close> on code units below 256: the letters A to Z and the
  capital letters from 0xC0 to 0xDE (0xD7 is the multiplication sign).
\<close>

definition toLowerChar :: "char \<Rightarrow> char" where
  "toLowerChar c =
     (let n = (of_char c :: nat)
      in if (65 \<le> n \<and> n \<le> 90) \<or> (192 \<le> n \<and> n \<le> 222 \<and> n \<noteq> 215)
         then char_of (n + 32) else c)"

definition toLowerCase :: "string \<Rightarrow> string" where
  "toLowerCase s = map toLowerChar s"

text \<open>\<^verbatim>\<open>String(v)\<close>; what it makes of a value that is not a string is the parameter \<open>render\<close>.\<close>

fun String_js :: "(jsval \<Rightarrow> string) \<Rightarrow> jsval \<Rightarrow> string" where
  "String_js render (JStr s) = s"
| "String_js render v = render v"

definition normalizeHashtag :: "(jsval \<Rightarrow> string) \<Rightarrow> jsval \<Rightarrow> string" where
  "normalizeHashtag render rawTag =
     (let trimmed = trim (String_js render (nullish rawTag (JStr [])))
      in if trimmed = [] then []
         else (let compact = removeWhiteSpace trimmed
               in if compact = [] then []
                  else if startsWithHash compact then compact else CHR ''#'' # compact))"

text \<open>
  \<^verbatim>\<open>typeof entry === 'string' ? entry
     : entry && typeof entry === 'object' ? entry.tag ?? entry.hashtag ?? entry.text ?? '' : ''\<close>
\<close>

fun wizardCandidate :: "jsval \<Rightarrow> jsval" where
  "wizardCandidate (JStr s) = JStr s"
| "wizardCandidate entry =
     (if isObject entry
      then nullish (getProp entry ''tag'')
             (nullish (getProp entry ''hashtag'') (nullish (getProp entry ''text'') (JStr [])))
      else JStr [])"

text \<open>One iteration of the loop, on the pair of \<^verbatim>\<open>seen\<close> and \<^verbatim>\<open>result\<close>.\<close>

definition hashtagStep ::
  "(jsval \<Rightarrow> string) \<Rightarrow> string list \<times> string list \<Rightarrow> jsval \<Rightarrow> string list \<times> string list" where
  "hashtagStep render state entry =
     (let seen = fst state; result = snd state;
          normalized = normalizeHashtag render (wizardCandidate entry)
      in if normalized = [] then (seen, result)
         else (let key = toLowerCase normalized
               in if key \<in> set seen then (seen, result)
                  else (seen @ [key], result @ [normalized])))"

fun normalizeHashtags_wizard :: "(jsval \<Rightarrow> string) \<Rightarrow> jsval \<Rightarrow> string list" where
  "normalizeHashtags_wizard render (JArr entries) = snd (foldl (hashtagStep render) ([], []) entries)"
| "normalizeHashtags_wizard render raw = []"

section \<open>The file system\<close>

text \<open>
  The state of the world is the regular files with their contents, the directories, and
  the trace of the calls that change the file system, each with its outcome (\<open>None\<close>
  for success). \<open>readFault\<close> and \<open>writeFault\<close> are the paths that cannot be read or
  created, with the error code the call then fails with.
\<close>

datatype event =
    Open string "errno option"
  | Mkdir string "errno option"
  | Rename string string "errno option"
  | CopyFile string string "errno option"
  | Unlink string "errno option"
  | Rm string "errno option"
  | WriteFile string string "errno option"

record world =
  files :: "string \<rightharpoonup> string"
  dirs :: "string set"
  readFault :: "string \<rightharpoonup> errno"
  writeFault :: "string \<rightharpoonup> errno"
  trace :: "event list"

definition pathExists :: "world \<Rightarrow> string \<Rightarrow> bool" where
  "pathExists w path = (files w path \<noteq> None \<or> path \<in> dirs w)"

definition logEvent :: "event \<Rightarrow> world \<Rightarrow> world" where
  "logEvent e w = w\<lparr>trace := trace w @ [e]\<rparr>"

text \<open>
  \<^verbatim>\<open>fs.open(path, 'wx')\<close>, \<^verbatim>\<open>writeFile(payload)\<close> and \<^verbatim>\<open>close()\<close>: an exclusive
  creation, which fails with \<open>EEXIST\<close> when the path exists.
\<close>

definition openWx :: "string \<Rightarrow> string \<Rightarrow> world \<Rightarrow> errno option \<times> world" where
  "openWx path payload w =
     (if pathExists w path then (Some EEXIST, logEvent (Open path (Some EEXIST)) w)
      else (case writeFault w path of
              Some e \<Rightarrow> (Some e, logEvent (Open path (Some e)) w)
            | None \<Rightarrow> (None, logEvent (Open path None) (w\<lparr>files := (files w)(path \<mapsto> payload)\<rparr>))))"

text \<open>\<^verbatim>\<open>fs.readFile(path, 'utf8')\<close>\<close>

definition readFile :: "world \<Rightarrow> string \<Rightarrow> errno + string" where
  "readFile w path =
     (case readFault w path of
        Some e \<Rightarrow> Inl e
      | None \<Rightarrow> (case files w path of
                  Some content \<Rightarrow> Inr content
                | None \<Rightarrow> if path \<in> dirs w then Inl EISDIR else Inl ENOENT))"

text \<open>\<^verbatim>\<open>fs.rm(path, { force: true })\<close>: a missing path is no error, a directory is one.\<close>

definition rmForce :: "string \<Rightarrow> world \<Rightarrow> errno option \<times> world" where
  "rmForce path w =
     (if path \<in> dirs w then (Some EISDIR, logEvent (Rm path (Some EISDIR)) w)
      else (None, logEvent (Rm path None) (w\<lparr>files := (files w)(path := None)\<rparr>)))"

section \<open>LockGuard: \<^verbatim>\<open>isProcessAlive\<close>, \<^verbatim>\<open>acquireLock\<close>, \<^verbatim>\<open>releaseLock\<close> (run_job.mjs)\<close>

text \<open>
  \<open>kill0 pid\<close> is the outcome of \<^verbatim>\<open>process.kill(pid, 0)\<close>. The argument is
  \<^verbatim>\<open>Number(firstLine)\<close>, \<open>None\<close> when that is not an integer.
\<close>

definition isProcessAlive :: "(int \<Rightarrow> errno option) \<Rightarrow> int option \<Rightarrow> error + bool" where
  "isProcessAlive kill0 pid =
     (case pid of
        None \<Rightarrow> Inr False
      | Some p \<Rightarrow>
          if p \<le> 0 then Inr False
          else (case kill0 p of
                  None \<Rightarrow> Inr True
                | Some e \<Rightarrow> if e = ESRCH then Inr False
                            else if e = EPERM then Inr True
                            else Inl (SysError e)))"

text \<open>\<^verbatim>\<open>existing.split(/\r?\n/, 1)[0]?.trim()\<close>: a carriage return is white space.\<close>

definition firstLineTrimmed :: "string \<Rightarrow> string" where
  "firstLineTrimmed existing = trim (takeWhile (\<lambda>c. c \<noteq> CHR 0x0A) existing)"

definition lockPayload :: "int \<Rightarrow> string \<Rightarrow> string" where
  "lockPayload pid now = decimal (nat pid) @ [CHR 0x0A] @ now @ [CHR 0x0A]"

text \<open>
  The second \<^verbatim>\<open>try\<close> block: whether the lock is stale. Any exception in it is caught
  and means stale.
\<close>

definition lockIsStale ::
  "(jsval \<Rightarrow> int option) \<Rightarrow> (int \<Rightarrow> errno option) \<Rightarrow> string \<Rightarrow> world \<Rightarrow> bool" where
  "lockIsStale coerce kill0 lockFilePath w =
     (case readFile w lockFilePath of
        Inl e \<Rightarrow> True
      | Inr existing \<Rightarrow>
          (let firstLine = firstLineTrimmed existing;
               activePid = Number_str coerce firstLine
           in case isProcessAlive kill0 activePid of
                Inr alive \<Rightarrow> \<not> alive
              | Inl e \<Rightarrow> True))"

definition acquireLock ::
  "(jsval \<Rightarrow> int option) \<Rightarrow> (int \<Rightarrow> errno option) \<Rightarrow> string \<Rightarrow> int \<Rightarrow> string \<Rightarrow> world
     \<Rightarrow> (error + bool) \<times> world" where
  "acquireLock coerce kill0 lockFilePath pid now w0 =
     (let payload = lockPayload pid now in
      case openWx lockFilePath payload w0 of
        (None, w1) \<Rightarrow> (Inr True, w1)
      | (Some e, w1) \<Rightarrow>
          if e \<noteq> EEXIST then (Inl (SysError e), w1)
          else if \<not> lockIsStale coerce kill0 lockFilePath w1 then (Inr False, w1)
          else (case rmForce lockFilePath w1 of
                  (Some e, w2) \<Rightarrow> (Inl (SysError e), w2)
                | (None, w2) \<Rightarrow>
                    (case openWx lockFilePath payload w2 of
                       (None, w3) \<Rightarrow> (Inr True, w3)
                     | (Some e, w3) \<Rightarrow> (Inl (SysError e), w3))))"

definition releaseLock :: "string \<Rightarrow> world \<Rightarrow> errno option \<times> world" where
  "releaseLock lockFilePath w = rmForce lockFilePath w"

text \<open>A world with no file, for examples.\<close>

definition emptyWorld :: world where
  "emptyWorld = \<lparr>files = Map.empty, dirs = {}, readFault = Map.empty, writeFault = Map.empty, trace = []\<rparr>"

section \<open>JobPackager (run_job.mjs)\<close>

subsection \<open>Paths\<close>

text \<open>
  \<^verbatim>\<open>path.join(dir, name)\<close> for a name without separators, \<^verbatim>\<open>path.basename\<close> of a path
  that does not end in a separator, and the two halves of \<^verbatim>\<open>path.parse(base)\<close>: the
  extension starts at the last dot, unless that dot is the first character or the name is
  \<^verbatim>\<open>..\<close>.
\<close>

definition pathJoin :: "string \<Rightarrow> string \<Rightarrow> string" where
  "pathJoin dir name = dir @ ''/'' @ name"

definition basename :: "string \<Rightarrow> string" where
  "basename path = rev (takeWhile (\<lambda>c. c \<noteq> CHR ''/'') (rev path))"

definition extname :: "string \<Rightarrow> string" where
  "extname base =
     (let afterDot = rev (takeWhile (\<lambda>c. c \<noteq> CHR ''.'') (rev base));
          startDot = length base - length afterDot - 1
      in if CHR ''.'' \<notin> set base \<or> startDot = 0 \<or> base = ''..'' then []
         else drop startDot base)"

definition parsedName :: "string \<Rightarrow> string" where
  "parsedName base = take (length base - length (extname base)) base"

subsection \<open>\<^verbatim>\<open>uniqueFilePath\<close>\<close>

definition fileSuffix :: "nat \<Rightarrow> string" where
  "fileSuffix attempt = (if attempt = 0 then [] else CHR ''_'' # decimal attempt)"

definition candidatePath :: "string \<Rightarrow> string \<Rightarrow> string \<Rightarrow> nat \<Rightarrow> string" where
  "candidatePath targetDir name ext attempt = pathJoin targetDir (name @ fileSuffix attempt @ ext)"

text \<open>
  The \<^verbatim>\<open>while (true)\<close> loop. \<^verbatim>\<open>fs.access(candidatePath, F_OK)\<close> succeeds when the path
  exists and fails only when it does not. The loop need not end: the result is \<open>None\<close>
  when it does not.
\<close>

partial_function (option) uniqueFilePathLoop ::
  "world \<Rightarrow> string \<Rightarrow> string \<Rightarrow> string \<Rightarrow> nat \<Rightarrow> string option" where
  "uniqueFilePathLoop w targetDir name ext attempt =
     (if pathExists w (candidatePath targetDir name ext attempt)
      then uniqueFilePathLoop w targetDir name ext (attempt + 1)
      else Some (candidatePath targetDir name ext attempt))"

definition uniqueFilePath :: "world \<Rightarrow> string \<Rightarrow> string \<Rightarrow> string option" where
  "uniqueFilePath w targetDir baseName =
     uniqueFilePathLoop w targetDir (parsedName baseName) (extname baseName) 0"

subsection \<open>\<^verbatim>\<open>moveFileSafe\<close>\<close>

text \<open>
  \<open>xdev source destination\<close> tells whether the two paths are on different devices.
  \<^verbatim>\<open>fs.rename\<close> replaces an existing destination file; \<^verbatim>\<open>fs.copyFile\<close> with
  \<^verbatim>\<open>COPYFILE_EXCL\<close> fails when the destination exists.
\<close>

definition rename :: "(string \<Rightarrow> string \<Rightarrow> bool) \<Rightarrow> string \<Rightarrow> string \<Rightarrow> world \<Rightarrow> errno option \<times> world" where
  "rename xdev source destination w =
     (case files w source of
        None \<Rightarrow> (Some ENOENT, logEvent (Rename source destination (Some ENOENT)) w)
      | Some content \<Rightarrow>
          if xdev source destination
          then (Some EXDEV, logEvent (Rename source destination (Some EXDEV)) w)
          else if destination \<in> dirs w
          then (Some EISDIR, logEvent (Rename source destination (Some EISDIR)) w)
          else (None, logEvent (Rename source destination None)
                        (w\<lparr>files := (files w)(source := None, destination \<mapsto> content)\<rparr>)))"

definition copyFileExcl :: "string \<Rightarrow> string \<Rightarrow> world \<Rightarrow> errno option \<times> world" where
  "copyFileExcl source destination w =
     (case files w source of
        None \<Rightarrow> (Some ENOENT, logEvent (CopyFile source destination (Some ENOENT)) w)
      | Some content \<Rightarrow>
          if pathExists w destination
          then (Some EEXIST, logEvent (CopyFile source destination (Some EEXIST)) w)
          else (case writeFault w destination of
                  Some e \<Rightarrow> (Some e, logEvent (CopyFile source destination (Some e)) w)
                | None \<Rightarrow> (None, logEvent (CopyFile source destination None)
                                   (w\<lparr>files := (files w)(destination \<mapsto> content)\<rparr>))))"

definition unlink :: "string \<Rightarrow> world \<Rightarrow> errno option \<times> world" where
  "unlink path w =
     (case files w path of
        None \<Rightarrow> (Some ENOENT, logEvent (Unlink path (Some ENOENT)) w)
      | Some content \<Rightarrow> (None, logEvent (Unlink path None) (w\<lparr>files := (files w)(path := None)\<rparr>)))"

definition moveFileSafe ::
  "(string \<Rightarrow> string \<Rightarrow> bool) \<Rightarrow> string \<Rightarrow> string \<Rightarrow> world \<Rightarrow> (error + unit) \<times> world" where
  "moveFileSafe xdev sourcePath destinationPath w =
     (case rename xdev sourcePath destinationPath w of
        (None, w1) \<Rightarrow> (Inr (), w1)
      | (Some e, w1) \<Rightarrow>
          if e \<noteq> EXDEV then (Inl (SysError e), w1)
          else (case copyFileExcl sourcePath destinationPath w1 of
                  (Some e, w2) \<Rightarrow> (Inl (SysError e), w2)
                | (None, w2) \<Rightarrow>
                    (case unlink sourcePath w2 of
                       (Some e, w3) \<Rightarrow> (Inl (SysError e), w3)
                     | (None, w3) \<Rightarrow> (Inr (), w3))))"

text \<open>
  The \<^verbatim>\<open>for (const sourcePath of selectedMedia)\<close> loop of \<^verbatim>\<open>run()\<close>; the first exception
  ends it.
\<close>

fun moveSelectedMedia ::
  "(string \<Rightarrow> string \<Rightarrow> bool) \<Rightarrow> string \<Rightarrow> string list \<Rightarrow> world \<Rightarrow> ((error + unit) \<times> world) option" where
  "moveSelectedMedia xdev jobDir [] w = Some (Inr (), w)"
| "moveSelectedMedia xdev jobDir (sourcePath # rest) w =
     (case uniqueFilePath w jobDir (basename sourcePath) of
        None \<Rightarrow> None
      | Some destinationPath \<Rightarrow>
          (case moveFileSafe xdev sourcePath destinationPath w of
             (Inl e, w1) \<Rightarrow> Some (Inl e, w1)
           | (Inr u, w1) \<Rightarrow> moveSelectedMedia xdev jobDir rest w1))"

text \<open>A world with finitely many files and directories.\<close>

definition finiteWorld :: "world \<Rightarrow> bool" where
  "finiteWorld w = (finite (dom (files w)) \<and> finite (dirs w))"

text \<open>
  For the statements: the paths that exist once the files \<open>moved\<close> of the world have been
  moved to the paths \<open>placed\<close>.
\<close>

definition occupied :: "world \<Rightarrow> string list \<Rightarrow> string list \<Rightarrow> string \<Rightarrow> bool" where
  "occupied w moved placed p =
     ((files w p \<noteq> None \<and> p \<notin> set moved) \<or> p \<in> dirs w \<or> p \<in> set placed)"

text \<open>
  A job directory that already holds \<^verbatim>\<open>a.jpg\<close>, and two media of that name, for examples.
\<close>

definition collisionWorld :: world where
  "collisionWorld =
     \<lparr>files = [''/out/job/a.jpg'' \<mapsto> ''old'', ''/src/x/a.jpg'' \<mapsto> ''X'',
               ''/src/y/a.jpg'' \<mapsto> ''Y''],
      dirs = {''/out/job'', ''/src/x'', ''/src/y''}, readFault = Map.empty,
      writeFault = Map.empty, trace = []\<rparr>"

section \<open>Orchestrator: \<^verbatim>\<open>run\<close> (run_job.mjs)\<close>

subsection \<open>The remaining file-system calls\<close>

text \<open>
  \<^verbatim>\<open>fs.mkdir(path, { recursive: true })\<close>: no error when the directory exists. The
  parent directories it creates on the way are not recorded.
\<close>

definition mkdirRecursive :: "string \<Rightarrow> world \<Rightarrow> errno option \<times> world" where
  "mkdirRecursive path w =
     (if files w path \<noteq> None then (Some EEXIST, logEvent (Mkdir path (Some EEXIST)) w)
      else (case writeFault w path of
              Some e \<Rightarrow> (Some e, logEvent (Mkdir path (Some e)) w)
            | None \<Rightarrow> (None, logEvent (Mkdir path None) (w\<lparr>dirs := insert path (dirs w)\<rparr>))))"

text \<open>\<^verbatim>\<open>fs.mkdir(path, { recursive: false })\<close>: \<open>EEXIST\<close> when the path exists.\<close>

definition mkdir :: "string \<Rightarrow> world \<Rightarrow> errno option \<times> world" where
  "mkdir path w =
     (if pathExists w path then (Some EEXIST, logEvent (Mkdir path (Some EEXIST)) w)
      else (case writeFault w path of
              Some e \<Rightarrow> (Some e, logEvent (Mkdir path (Some e)) w)
            | None \<Rightarrow> (None, logEvent (Mkdir path None) (w\<lparr>dirs := insert path (dirs w)\<rparr>))))"

text \<open>\<^verbatim>\<open>fs.writeFile(path, content, 'utf8')\<close>: creates the file or replaces its content.\<close>

definition writeFile :: "string \<Rightarrow> string \<Rightarrow> world \<Rightarrow> errno option \<times> world" where
  "writeFile path content w =
     (if path \<in> dirs w then (Some EISDIR, logEvent (WriteFile path content (Some EISDIR)) w)
      else (case writeFault w path of
              Some e \<Rightarrow> (Some e, logEvent (WriteFile path content (Some e)) w)
            | None \<Rightarrow> (None, logEvent (WriteFile path content None)
                               (w\<lparr>files := (files w)(path \<mapsto> content)\<rparr>))))"

subsection \<open>\<^verbatim>\<open>uniqueDirectoryPath\<close>\<close>

text \<open>\<^verbatim>\<open>String(attempt).padStart(2, '0')\<close>\<close>

definition padStart2 :: "string \<Rightarrow> string" where
  "padStart2 s = replicate (2 - length s) (CHR ''0'') @ s"

definition dirSuffix :: "nat \<Rightarrow> string" where
  "dirSuffix attempt = (if attempt = 0 then [] else CHR ''_'' # padStart2 (decimal attempt))"

partial_function (option) uniqueDirectoryPathLoop ::
  "string \<Rightarrow> string \<Rightarrow> nat \<Rightarrow> world \<Rightarrow> ((error + string) \<times> world) option" where
  "uniqueDirectoryPathLoop baseDir desiredName attempt w =
     (case mkdir (pathJoin baseDir (desiredName @ dirSuffix attempt)) w of
        (None, w1) \<Rightarrow> Some (Inr (pathJoin baseDir (desiredName @ dirSuffix attempt)), w1)
      | (Some e, w1) \<Rightarrow>
          if e \<noteq> EEXIST then Some (Inl (SysError e), w1)
          else uniqueDirectoryPathLoop baseDir desiredName (attempt + 1) w1)"

definition uniqueDirectoryPath ::
  "string \<Rightarrow> string \<Rightarrow> world \<Rightarrow> ((error + string) \<times> world) option" where
  "uniqueDirectoryPath baseDir desiredName w = uniqueDirectoryPathLoop baseDir desiredName 0 w"

subsection \<open>The environment of a run\<close>

text \<open>
  What a run takes from outside the file system: the root directory, the process id and
  the clock, the outcome of \<^verbatim>\<open>process.kill\<close> and of crossing devices, \<^verbatim>\<open>JSON.parse\<close>
  (\<open>None\<close> for a syntax error) and \<^verbatim>\<open>JSON.stringify\<close>, the draws of \<^verbatim>\<open>Math.random()\<close>
  at each place where it is called, the name \<^verbatim>\<open>formatWibJobFolderName()\<close> gives to the
  job folder, and the two sorted lists that \<^verbatim>\<open>collectFilesRecursive\<close> returns: the scans
  only read the file system, and a scan that fails is not modelled.
\<close>

record env =
  rootDir :: string
  processId :: int
  lockTime :: string
  captionTime :: string
  jobFolderName :: string
  killProbe :: "int \<Rightarrow> errno option"
  crossDevice :: "string \<Rightarrow> string \<Rightarrow> bool"
  numberCoercion :: "jsval \<Rightarrow> int option"
  JSON_parse :: "string \<Rightarrow> jsval option"
  JSON_stringify :: "jsval \<Rightarrow> string"
  scannedImages :: "string list"
  scannedVideos :: "string list"
  drawComposition :: real
  drawsImages :: "nat \<Rightarrow> real"
  drawsVideos :: "nat \<Rightarrow> real"
  drawCaption :: real
  drawsHashtags :: "nat \<Rightarrow> real"

definition sourceImageDir :: "string \<Rightarrow> string" where
  "sourceImageDir rootPath = pathJoin (pathJoin rootPath ''source_media'') ''images''"

definition sourceVideoDir :: "string \<Rightarrow> string" where
  "sourceVideoDir rootPath = pathJoin (pathJoin rootPath ''source_media'') ''videos''"

definition outputJobsDir :: "string \<Rightarrow> string" where
  "outputJobsDir rootPath = pathJoin rootPath ''output_jobs''"

definition dataDir :: "string \<Rightarrow> string" where
  "dataDir rootPath = pathJoin rootPath ''data''"

definition captionsPath :: "string \<Rightarrow> string" where
  "captionsPath rootPath = pathJoin (dataDir rootPath) ''captions.json''"

definition hashtagsPath :: "string \<Rightarrow> string" where
  "hashtagsPath rootPath = pathJoin (dataDir rootPath) ''hashtags.json''"

definition lockFilePath :: "string \<Rightarrow> string" where
  "lockFilePath rootPath = pathJoin (dataDir rootPath) ''.run.lock''"

datatype outcome = Success | SkippedLockHeld | SkippedInsufficientMedia

datatype run_error = Thrown error | ReadFailed errno | SyntaxError

subsection \<open>The steps of \<^verbatim>\<open>run\<close>\<close>

text \<open>\<^verbatim>\<open>ensureDirectories\<close>: the first failing \<^verbatim>\<open>mkdir\<close> ends it.\<close>

fun mkdirAll :: "string list \<Rightarrow> world \<Rightarrow> errno option \<times> world" where
  "mkdirAll [] w = (None, w)"
| "mkdirAll (path # rest) w =
     (case mkdirRecursive path w of
        (Some e, w1) \<Rightarrow> (Some e, w1)
      | (None, w1) \<Rightarrow> mkdirAll rest w1)"

definition ensureDirectories :: "string \<Rightarrow> world \<Rightarrow> errno option \<times> world" where
  "ensureDirectories rootPath w =
     mkdirAll [sourceImageDir rootPath, sourceVideoDir rootPath, outputJobsDir rootPath, dataDir rootPath] w"

text \<open>\<^verbatim>\<open>readJsonFile\<close>\<close>

definition readJsonFile :: "env \<Rightarrow> world \<Rightarrow> string \<Rightarrow> run_error + jsval" where
  "readJsonFile e w filePath =
     (case readFile w filePath of
        Inl code \<Rightarrow> Inl (ReadFailed code)
      | Inr content \<Rightarrow>
          (case JSON_parse e content of None \<Rightarrow> Inl SyntaxError | Some v \<Rightarrow> Inr v))"

text \<open>\<^verbatim>\<open>writeJsonFile\<close>: \<^verbatim>\<open>JSON.stringify(value, null, 2)\<close> and a line feed.\<close>

definition writeJsonFile :: "env \<Rightarrow> string \<Rightarrow> jsval \<Rightarrow> world \<Rightarrow> errno option \<times> world" where
  "writeJsonFile e filePath v w = writeFile filePath (JSON_stringify e v @ [CHR 0x0A]) w"

text \<open>\<^verbatim>\<open>selectedHashtags.join(' ')\<close>\<close>

fun joinSpace :: "string list \<Rightarrow> string" where
  "joinSpace [] = []"
| "joinSpace [tag] = tag"
| "joinSpace (tag # rest) = tag @ '' '' @ joinSpace rest"

text \<open>
  The media of the job: \<open>None\<close> when there is not enough source media, else the selected
  images followed by the selected videos.
\<close>

definition selectMedia :: "env \<Rightarrow> error + string list option" where
  "selectMedia e =
     (case chooseComposition (drawComposition e)
             (int (length (scannedImages e))) (int (length (scannedVideos e))) of
        None \<Rightarrow> Inr None
      | Some composition \<Rightarrow>
          (case pickRandomItems (drawsImages e) (scannedImages e) (images composition) of
             Inl err \<Rightarrow> Inl err
           | Inr selectedImages \<Rightarrow>
               (case pickRandomItems (drawsVideos e) (scannedVideos e) (videos composition) of
                  Inl err \<Rightarrow> Inl err
                | Inr selectedVideos \<Rightarrow> Inr (Some (selectedImages @ selectedVideos)))))"

text \<open>The caption text, the rotated bank and the hashtags of the job.\<close>

definition selectCaption ::
  "env \<Rightarrow> world \<Rightarrow> run_error + (string \<times> jsval caption_entry list)" where
  "selectCaption e w =
     (case readJsonFile e w (captionsPath (rootDir e)) of
        Inl err \<Rightarrow> Inl err
      | Inr captionsRaw \<Rightarrow>
          (case normalizeCaptionEntries captionsRaw of
             Inl err \<Rightarrow> Inl (Thrown err)
           | Inr normalizedCaptions \<Rightarrow>
               (case pickCaption (drawCaption e) (captionTime e) normalizedCaptions of
                  Inl err \<Rightarrow> Inl (Thrown err)
                | Inr picked \<Rightarrow> Inr picked)))"

definition selectHashtags :: "env \<Rightarrow> world \<Rightarrow> run_error + string list" where
  "selectHashtags e w =
     (case readJsonFile e w (hashtagsPath (rootDir e)) of
        Inl err \<Rightarrow> Inl err
      | Inr hashtagsRaw \<Rightarrow>
          (case normalizeHashtags hashtagsRaw of
             Inl err \<Rightarrow> Inl (Thrown err)
           | Inr hashtags \<Rightarrow>
               (case pickHashtags (drawsHashtags e) hashtags of
                  Inl err \<Rightarrow> Inl (Thrown err)
                | Inr selectedHashtags \<Rightarrow> Inr selectedHashtags)))"

text \<open>
  From \<^verbatim>\<open>uniqueDirectoryPath\<close> to \<^verbatim>\<open>writeJsonFile(captionsPath, nextCaptions)\<close>: the job
  directory, the moves, the caption file, the caption bank.
\<close>

definition packageJob ::
  "env \<Rightarrow> string list \<Rightarrow> string \<Rightarrow> jsval caption_entry list \<Rightarrow> string list \<Rightarrow> world
     \<Rightarrow> ((run_error + unit) \<times> world) option" where
  "packageJob e selectedMedia captionText nextCaptions selectedHashtags w =
     (case uniqueDirectoryPath (outputJobsDir (rootDir e)) (jobFolderName e) w of
        None \<Rightarrow> None
      | Some (Inl err, w1) \<Rightarrow> Some (Inl (Thrown err), w1)
      | Some (Inr jobDir, w1) \<Rightarrow>
          (case moveSelectedMedia (crossDevice e) jobDir selectedMedia w1 of
             None \<Rightarrow> None
           | Some (Inl err, w2) \<Rightarrow> Some (Inl (Thrown err), w2)
           | Some (Inr u, w2) \<Rightarrow>
               (let hashtagsLine = joinSpace selectedHashtags;
                    captionFileContent = captionText @ [CHR 0x0A] @ hashtagsLine @ [CHR 0x0A]
                in case writeFile (pathJoin jobDir ''caption.txt'') captionFileContent w2 of
                     (Some code, w3) \<Rightarrow> Some (Inl (Thrown (SysError code)), w3)
                   | (None, w3) \<Rightarrow>
                       (case writeJsonFile e (captionsPath (rootDir e)) (bankJson nextCaptions) w3 of
                          (Some code, w4) \<Rightarrow> Some (Inl (Thrown (SysError code)), w4)
                        | (None, w4) \<Rightarrow> Some (Inr (), w4)))))"

text \<open>The body of the \<^verbatim>\<open>try\<close> block.\<close>

definition runLocked :: "env \<Rightarrow> world \<Rightarrow> ((run_error + outcome) \<times> world) option" where
  "runLocked e w =
     (case selectMedia e of
        Inl err \<Rightarrow> Some (Inl (Thrown err), w)
      | Inr None \<Rightarrow> Some (Inr SkippedInsufficientMedia, w)
      | Inr (Some selectedMedia) \<Rightarrow>
          (case selectCaption e w of
             Inl err \<Rightarrow> Some (Inl err, w)
           | Inr (captionText, nextCaptions) \<Rightarrow>
               (case selectHashtags e w of
                  Inl err \<Rightarrow> Some (Inl err, w)
                | Inr selectedHashtags \<Rightarrow>
                    (case packageJob e selectedMedia captionText nextCaptions selectedHashtags w of
                       None \<Rightarrow> None
                     | Some (Inl err, w1) \<Rightarrow> Some (Inl err, w1)
                     | Some (Inr u, w1) \<Rightarrow> Some (Inr Success, w1)))))"

text \<open>
  \<^verbatim>\<open>run\<close>: the directories and the lock, then the \<^verbatim>\<open>try\<close> block, and
  \<^verbatim>\<open>releaseLock\<close> in the \<^verbatim>\<open>finally\<close> clause, whose own exception replaces the result.
\<close>

definition run :: "env \<Rightarrow> world \<Rightarrow> ((run_error + outcome) \<times> world) option" where
  "run e w0 =
     (case ensureDirectories (rootDir e) w0 of
        (Some code, w1) \<Rightarrow> Some (Inl (Thrown (SysError code)), w1)
      | (None, w1) \<Rightarrow>
          (case acquireLock (numberCoercion e) (killProbe e) (lockFilePath (rootDir e)) (processId e) (lockTime e) w1 of
             (Inl err, w2) \<Rightarrow> Some (Inl (Thrown err), w2)
           | (Inr False, w2) \<Rightarrow> Some (Inr SkippedLockHeld, w2)
           | (Inr True, w2) \<Rightarrow>
               (case runLocked e w2 of
                  None \<Rightarrow> None
                | Some (result, w3) \<Rightarrow>
                    (case releaseLock (lockFilePath (rootDir e)) w3 of
                       (Some code, w4) \<Rightarrow> Some (Inl (Thrown (SysError code)), w4)
                     | (None, w4) \<Rightarrow> Some (result, w4)))))"

text \<open>The kinds of events, for the statements about the order of a run.\<close>

fun isMove :: "event \<Rightarrow> bool" where
  "isMove (Rename source destination r) = True"
| "isMove (CopyFile source destination r) = True"
| "isMove (Unlink path r) = True"
| "isMove ev = False"

fun isCompletedMove :: "event \<Rightarrow> bool" where
  "isCompletedMove (Rename source destination None) = True"
| "isCompletedMove (Unlink path None) = True"
| "isCompletedMove ev = False"

fun isWrite :: "event \<Rightarrow> bool" where
  "isWrite (WriteFile path content r) = True"
| "isWrite ev = False"

fun writesTo :: "string \<Rightarrow> event \<Rightarrow> bool" where
  "writesTo target (WriteFile path content r) = (path = target)"
| "writesTo target ev = False"

text \<open>The end-to-end example of the specification: two images, three videos, one caption.\<close>

definition exampleEnv :: env where
  "exampleEnv =
     \<lparr>rootDir = ''/r'', processId = 4242, lockTime = ''2026-02-22T14:00:00.000Z'',
      captionTime = ''2026-02-22T14:00:01.000Z'', jobFolderName = ''job_2026-02-22_21-00_WIB'',
      killProbe = (\<lambda>p. Some ESRCH), crossDevice = (\<lambda>source destination. False), numberCoercion = (\<lambda>v. None),
      JSON_parse = (\<lambda>s. if s = ''captions'' then
                             Some (JArr [JObj [(''id'', JNum 1), (''text'', JStr ''Hi''),
                                               (''used'', JBool False)]])
                           else if s = ''hashtags'' then
                             Some (JArr [JStr ''#x'', JStr ''#y'', JStr ''#z''])
                           else None),
      JSON_stringify = (\<lambda>v. ''bank''),
      scannedImages = [''/r/source_media/images/a.jpg'', ''/r/source_media/images/b.jpg''],
      scannedVideos = [''/r/source_media/videos/c.mp4'', ''/r/source_media/videos/d.mp4'',
                       ''/r/source_media/videos/e.mp4''],
      drawComposition = 1 / 2, drawsImages = (\<lambda>i. 1 / 2), drawsVideos = (\<lambda>i. 1 / 2),
      drawCaption = 1 / 2, drawsHashtags = (\<lambda>i. 1 / 2)\<rparr>"

definition exampleWorld :: world where
  "exampleWorld =
     \<lparr>files = [''/r/source_media/images/a.jpg'' \<mapsto> ''A'', ''/r/source_media/images/b.jpg'' \<mapsto> ''B'',
               ''/r/source_media/videos/c.mp4'' \<mapsto> ''C'', ''/r/source_media/videos/d.mp4'' \<mapsto> ''D'',
               ''/r/source_media/videos/e.mp4'' \<mapsto> ''E'',
               ''/r/data/captions.json'' \<mapsto> ''captions'', ''/r/data/hashtags.json'' \<mapsto> ''hashtags''],
      dirs = {}, readFault = Map.empty, writeFault = Map.empty, trace = []\<rparr>"

section \<open>Facts about the random source\<close>

lemma randomIndex_less:
  assumes "0 \<le> u" "u < 1" "0 < n"
  shows "randomIndex u n < n"
proof -
  have "u * real n < real n" using assms by simp
  then have "\<lfloor>u * real n\<rfloor> < int n" by (simp add: floor_less_iff)
  moreover have "0 \<le> \<lfloor>u * real n\<rfloor>" using assms by simp
  ultimately show ?thesis unfolding randomIndex_def by linarith
qed

lemma randomIndex_eq_iff:
  assumes "0 \<le> u" "0 < n"
  shows "randomIndex u n = i \<longleftrightarrow> real i / real n \<le> u \<and> u < (real i + 1) / real n"
proof -
  have nn: "0 \<le> \<lfloor>u * real n\<rfloor>" using assms by simp
  have "randomIndex u n = i \<longleftrightarrow> \<lfloor>u * real n\<rfloor> = int i"
    unfolding randomIndex_def using nn by linarith
  also have "\<dots> \<longleftrightarrow> real i \<le> u * real n \<and> u * real n < real i + 1"
    by (simp add: floor_eq_iff)
  also have "\<dots> \<longleftrightarrow> real i / real n \<le> u \<and> u < (real i + 1) / real n"
    using assms by (simp add: pos_divide_le_eq pos_less_divide_eq)
  finally show ?thesis .
qed

text \<open>
  On the unit interval, the draws that give index \<open>i\<close> of \<open>n\<close> are exactly the half-open
  interval from \<open>i / n\<close> of width \<open>1 / n\<close>: every index is as likely as any other.
\<close>

lemma randomIndex_interval:
  assumes "i < n"
  shows "{u. 0 \<le> u \<and> u < 1 \<and> randomIndex u n = i} =
         {real i / real n ..< real i / real n + 1 / real n}"
proof -
  have n: "0 < n" using assms by simp
  have up: "(real i + 1) / real n \<le> 1" using assms by simp
  have lo: "0 \<le> real i / real n" by simp
  have split: "(real i + 1) / real n = real i / real n + 1 / real n"
    by (simp add: add_divide_distrib)
  show ?thesis
  proof (rule set_eqI)
    fix u :: real
    show "u \<in> {u. 0 \<le> u \<and> u < 1 \<and> randomIndex u n = i} \<longleftrightarrow>
          u \<in> {real i / real n ..< real i / real n + 1 / real n}"
    proof (cases "0 \<le> u")
      case True
      then show ?thesis
        using randomIndex_eq_iff [OF True n, of i] up split by auto
    next
      case False
      then have "\<not> real i / real n \<le> u" using lo by linarith
      with False show ?thesis by simp
    qed
  qed
qed

section \<open>Facts about \<^verbatim>\<open>chooseComposition\<close>\<close>

lemma set_possibleImageCounts: "set (possibleImageCounts ic vc) = feasible ic vc"
  unfolding possibleImageCounts_def feasible_def by auto

lemma distinct_possibleImageCounts: "distinct (possibleImageCounts ic vc)"
  unfolding possibleImageCounts_def by simp

lemma feasible_nonempty:
  assumes "0 < ic" "0 < vc" "4 \<le> ic + vc"
  shows "feasible ic vc \<noteq> {}"
proof -
  have "(if 3 \<le> vc then 1 else if 2 \<le> vc then 2 else (3::int)) \<in> feasible ic vc"
    using assms unfolding feasible_def by auto
  then show ?thesis by blast
qed

lemma chooseComposition_mixed_interval:
  assumes "4 \<le> ic + vc" "0 < ic" "0 < vc" "k \<in> feasible ic vc"
  shows "\<exists>a. {w. 0 \<le> w \<and> w < 1 \<and>
                 chooseComposition w ic vc = Some \<lparr>images = k, videos = 4 - k\<rparr>} =
             {a ..< a + 1 / real (card (feasible ic vc))}"
proof -
  let ?p = "possibleImageCounts ic vc"
  let ?n = "length ?p"
  have kin: "k \<in> set ?p" using assms(4) by (simp add: set_possibleImageCounts)
  then obtain i where i: "i < ?n" "?p ! i = k" by (auto simp: in_set_conv_nth)
  have ne: "?p \<noteq> []" using kin by auto
  have card: "card (feasible ic vc) = ?n"
    using distinct_card [OF distinct_possibleImageCounts, of ic vc]
    by (simp add: set_possibleImageCounts)
  have cc: "chooseComposition w ic vc =
            Some \<lparr>images = ?p ! randomIndex w ?n, videos = 4 - ?p ! randomIndex w ?n\<rparr>" for w
    using assms(1-3) ne by (simp add: chooseComposition_def Let_def)
  have "{w. 0 \<le> w \<and> w < 1 \<and> chooseComposition w ic vc = Some \<lparr>images = k, videos = 4 - k\<rparr>} =
        {w. 0 \<le> w \<and> w < 1 \<and> randomIndex w ?n = i}"
  proof (rule set_eqI, simp only: mem_Collect_eq, intro iffI conjI; (elim conjE)?)
    fix w :: real
    assume w: "0 \<le> w" "w < 1"
      and c: "chooseComposition w ic vc = Some \<lparr>images = k, videos = 4 - k\<rparr>"
    have lt: "randomIndex w ?n < ?n" using w i(1) by (intro randomIndex_less) auto
    from c have "?p ! randomIndex w ?n = k" by (simp add: cc)
    then show "randomIndex w ?n = i"
      using i lt distinct_possibleImageCounts [of ic vc] by (metis nth_eq_iff_index_eq)
  next
    fix w :: real
    assume "randomIndex w ?n = i"
    then show "chooseComposition w ic vc = Some \<lparr>images = k, videos = 4 - k\<rparr>"
      using i by (simp add: cc)
  qed simp_all
  then show ?thesis
    using randomIndex_interval [OF i(1)] card by auto
qed

text \<open>
  Claim C1. \<^verbatim>\<open>chooseComposition(imageCount, videoCount)\<close> follows the algorithm of the
  specification. With a draw \<open>u\<close> of the unit interval: it returns no composition when
  the total is below 4; when both counts are positive and the feasible set is not empty it
  returns \<open>{images: k, videos: 4 - k}\<close> for a feasible \<open>k\<close>, and every feasible \<open>k\<close> is the
  outcome on a half-open interval of draws of width \<open>1 / card feasible\<close> (the choice is
  uniform); otherwise it returns four images if there are at least four, else four videos
  if there are at least four, else no composition. A mixed batch is therefore returned
  whenever one is feasible.
\<close>

theorem chooseComposition_follows_spec:
  assumes "0 \<le> u" "u < 1"
  shows "(ic + vc < 4 \<longrightarrow> chooseComposition u ic vc = None)
       \<and> (4 \<le> ic + vc \<and> 0 < ic \<and> 0 < vc \<and> feasible ic vc \<noteq> {} \<longrightarrow>
            (\<exists>k \<in> feasible ic vc.
               chooseComposition u ic vc = Some \<lparr>images = k, videos = 4 - k\<rparr>)
          \<and> (\<forall>k \<in> feasible ic vc. \<exists>a.
               {w. 0 \<le> w \<and> w < 1 \<and>
                   chooseComposition w ic vc = Some \<lparr>images = k, videos = 4 - k\<rparr>} =
               {a ..< a + 1 / real (card (feasible ic vc))}))
       \<and> (4 \<le> ic + vc \<and> \<not> (0 < ic \<and> 0 < vc \<and> feasible ic vc \<noteq> {}) \<longrightarrow>
            chooseComposition u ic vc =
              (if 4 \<le> ic then Some \<lparr>images = 4, videos = 0\<rparr>
               else if 4 \<le> vc then Some \<lparr>images = 0, videos = 4\<rparr>
               else None))"
proof (intro conjI impI)
  assume "ic + vc < 4"
  then show "chooseComposition u ic vc = None" by (simp add: chooseComposition_def)
next
  assume h: "4 \<le> ic + vc \<and> 0 < ic \<and> 0 < vc \<and> feasible ic vc \<noteq> {}"
  let ?p = "possibleImageCounts ic vc"
  have ne: "?p \<noteq> []" using h set_possibleImageCounts [of ic vc] by auto
  then have "randomIndex u (length ?p) < length ?p"
    using assms by (intro randomIndex_less) auto
  then have "?p ! randomIndex u (length ?p) \<in> feasible ic vc"
    using set_possibleImageCounts [of ic vc] nth_mem by blast
  moreover have "chooseComposition u ic vc =
      Some \<lparr>images = ?p ! randomIndex u (length ?p), videos = 4 - ?p ! randomIndex u (length ?p)\<rparr>"
    using h ne by (simp add: chooseComposition_def Let_def)
  ultimately show "\<exists>k \<in> feasible ic vc.
      chooseComposition u ic vc = Some \<lparr>images = k, videos = 4 - k\<rparr>" by blast
next
  assume h: "4 \<le> ic + vc \<and> 0 < ic \<and> 0 < vc \<and> feasible ic vc \<noteq> {}"
  show "\<forall>k \<in> feasible ic vc. \<exists>a.
      {w. 0 \<le> w \<and> w < 1 \<and> chooseComposition w ic vc = Some \<lparr>images = k, videos = 4 - k\<rparr>} =
      {a ..< a + 1 / real (card (feasible ic vc))}"
    using h chooseComposition_mixed_interval by blast
next
  assume h: "4 \<le> ic + vc \<and> \<not> (0 < ic \<and> 0 < vc \<and> feasible ic vc \<noteq> {})"
  then have "\<not> (0 < ic \<and> 0 < vc \<and> possibleImageCounts ic vc \<noteq> [])"
    using set_possibleImageCounts [of ic vc] by (metis set_empty)
  with h show "chooseComposition u ic vc =
      (if 4 \<le> ic then Some \<lparr>images = 4, videos = 0\<rparr>
       else if 4 \<le> vc then Some \<lparr>images = 0, videos = 4\<rparr> else None)"
    by (auto simp add: chooseComposition_def Let_def)
qed

lemma feasible_2_3: "feasible 2 3 = {1, 2}"
  unfolding feasible_def by auto

theorem chooseComposition_follows_spec_witness:
  "(0::real) \<le> 1 / 2 \<and> (1 / 2 :: real) < 1 \<and> feasible 2 3 \<noteq> {} \<and>
   (\<exists>k \<in> feasible 2 3. chooseComposition (1 / 2) 2 3 = Some \<lparr>images = k, videos = 4 - k\<rparr>) \<and>
   chooseComposition (1 / 2) 1 1 = None \<and>
   chooseComposition (1 / 2) 5 0 = Some \<lparr>images = 4, videos = 0\<rparr>"
proof -
  have u: "(0::real) \<le> 1 / 2" "(1 / 2 :: real) < 1" by simp_all
  have f: "feasible 2 3 \<noteq> {}" by (simp add: feasible_2_3)
  have g: "feasible 5 0 = {}" unfolding feasible_def by auto
  have "\<exists>k \<in> feasible 2 3. chooseComposition (1 / 2) 2 3 = Some \<lparr>images = k, videos = 4 - k\<rparr>"
    using chooseComposition_follows_spec [OF u, of 2 3] f by simp
  moreover have "chooseComposition (1 / 2) 1 1 = None"
    using chooseComposition_follows_spec [OF u, of 1 1] by simp
  moreover have "chooseComposition (1 / 2) 5 0 = Some \<lparr>images = 4, videos = 0\<rparr>"
    using chooseComposition_follows_spec [OF u, of 5 0] g by simp
  ultimately show ?thesis using u f by blast
qed

section \<open>Facts about sampling without replacement\<close>

lemma unitDraws_shift: "unitDraws rnd \<Longrightarrow> unitDraws (\<lambda>i. rnd (Suc i))"
  by (simp add: unitDraws_def)

lemma mset_splice1:
  assumes "idx < length pool"
  shows "add_mset (pool ! idx) (mset (splice1 pool idx)) = mset pool"
proof -
  have "pool = take idx pool @ pool ! idx # drop (Suc idx) pool"
    using assms by (rule id_take_nth_drop)
  then have "mset pool = mset (take idx pool @ pool ! idx # drop (Suc idx) pool)" by simp
  then show ?thesis by (simp add: splice1_def)
qed

lemma length_splice1: "idx < length pool \<Longrightarrow> length (splice1 pool idx) = length pool - 1"
  by (simp add: splice1_def)

lemma length_pickLoop: "length (pickLoop rnd pool selected n) = length selected + n"
  by (induction n arbitrary: rnd pool selected) (simp_all add: Let_def)

lemma mset_pickLoop:
  assumes "unitDraws rnd" "n \<le> length pool"
  shows "\<exists>rest. mset (pickLoop rnd pool selected n) + mset rest = mset selected + mset pool"
  using assms
proof (induction n arbitrary: rnd pool selected)
  case 0
  show ?case by (rule exI [of _ pool]) simp
next
  case (Suc n)
  let ?idx = "randomIndex (rnd 0) (length pool)"
  have pos: "0 < length pool" using Suc.prems(2) by auto
  have idx: "?idx < length pool"
    using Suc.prems(1) pos by (intro randomIndex_less) (simp_all add: unitDraws_def)
  have len: "n \<le> length (splice1 pool ?idx)"
    using Suc.prems(2) idx by (simp add: length_splice1)
  obtain rest where
    "mset (pickLoop (\<lambda>i. rnd (Suc i)) (splice1 pool ?idx) (selected @ [pool ! ?idx]) n) + mset rest =
     mset (selected @ [pool ! ?idx]) + mset (splice1 pool ?idx)"
    using Suc.IH [OF unitDraws_shift [OF Suc.prems(1)] len] by blast
  then have "mset (pickLoop rnd pool selected (Suc n)) + mset rest = mset selected + mset pool"
    using mset_splice1 [OF idx] by (simp add: Let_def)
  then show ?case by blast
qed

lemma pickLoop_sub_mset:
  assumes "unitDraws rnd" "n \<le> length pool"
  shows "mset (pickLoop rnd pool [] n) \<subseteq># mset pool"
proof -
  obtain rest where "mset (pickLoop rnd pool [] n) + mset rest = mset [] + mset pool"
    using mset_pickLoop [OF assms] by blast
  then have "mset pool = mset (pickLoop rnd pool [] n) + mset rest" by simp
  then show ?thesis by (metis mset_subset_eq_add_left)
qed


lemma pickRandomItems_ok:
  assumes "unitDraws rnd" "cnt \<le> int (length items)"
  shows "\<exists>selected. pickRandomItems rnd items cnt = Inr selected
           \<and> length selected = nat cnt
           \<and> mset selected \<subseteq># mset items"
proof (cases "cnt \<le> 0")
  case True
  then show ?thesis by (simp add: pickRandomItems_def)
next
  case False
  then have "nat cnt \<le> length items" using assms(2) by linarith
  then show ?thesis
    using False assms pickLoop_sub_mset [OF assms(1), of "nat cnt" items]
    by (simp add: pickRandomItems_def length_pickLoop)
qed

section \<open>Facts about \<^verbatim>\<open>randomIntInclusive\<close>\<close>




lemma chooseComposition_Some_cases:
  assumes "0 \<le> u" "u < 1" "chooseComposition u ic vc = Some c"
  shows "(\<exists>k \<in> feasible ic vc. c = \<lparr>images = k, videos = 4 - k\<rparr>)
       \<or> (c = \<lparr>images = 4, videos = 0\<rparr> \<and> 4 \<le> ic)
       \<or> (c = \<lparr>images = 0, videos = 4\<rparr> \<and> 4 \<le> vc)"
proof (cases "0 < ic \<and> 0 < vc \<and> possibleImageCounts ic vc \<noteq> []")
  case True
  let ?p = "possibleImageCounts ic vc"
  have "randomIndex u (length ?p) < length ?p"
    using assms(1,2) True by (intro randomIndex_less) auto
  then have "?p ! randomIndex u (length ?p) \<in> feasible ic vc"
    using set_possibleImageCounts [of ic vc] nth_mem by blast
  moreover have "c = \<lparr>images = ?p ! randomIndex u (length ?p),
                      videos = 4 - ?p ! randomIndex u (length ?p)\<rparr>"
    using assms(3) True by (simp add: chooseComposition_def Let_def split: if_splits)
  ultimately show ?thesis by blast
next
  case False
  then show ?thesis
    using assms(3) by (auto simp add: chooseComposition_def Let_def split: if_splits)
qed

lemma pickRandomItems_error_iff:
  "(\<exists>e. pickRandomItems rnd items cnt = Inl e) \<longleftrightarrow> 0 < cnt \<and> int (length items) < cnt"
  by (auto simp add: pickRandomItems_def)

text \<open>
  Claim C10. Every composition that \<^verbatim>\<open>chooseComposition(images.length, videos.length)\<close>
  returns fits the stock: \<open>composition.images \<le> images.length\<close> and
  \<open>composition.videos \<le> videos.length\<close>; whenever both counts are positive and their
  total is at least 4 the feasible mixed set is not empty; so the two calls of
  \<^verbatim>\<open>pickRandomItems\<close> in \<^verbatim>\<open>run()\<close> never take the "Cannot pick" branch, whatever
  the random draws, and return as many items as the composition asks for.
\<close>

theorem composition_within_stock:
  assumes "0 \<le> u" "u < 1"
    and "chooseComposition u (int (length imgs)) (int (length vids)) = Some c"
  shows "images c \<le> int (length imgs) \<and> videos c \<le> int (length vids)
       \<and> (0 < length imgs \<and> 0 < length vids \<and> 4 \<le> length imgs + length vids \<longrightarrow>
            feasible (int (length imgs)) (int (length vids)) \<noteq> {})
       \<and> (\<forall>rnd e. pickRandomItems rnd imgs (images c) \<noteq> Inl e)
       \<and> (\<forall>rnd e. pickRandomItems rnd vids (videos c) \<noteq> Inl e)
       \<and> (\<forall>rnd. unitDraws rnd \<longrightarrow>
            (\<exists>selected. pickRandomItems rnd imgs (images c) = Inr selected
                \<and> int (length selected) = images c))
       \<and> (\<forall>rnd. unitDraws rnd \<longrightarrow>
            (\<exists>selected. pickRandomItems rnd vids (videos c) = Inr selected
                \<and> int (length selected) = videos c))"
proof -
  have fit: "images c \<le> int (length imgs) \<and> videos c \<le> int (length vids)
             \<and> 0 \<le> images c \<and> 0 \<le> videos c"
    using chooseComposition_Some_cases [OF assms] by (auto simp add: feasible_def)
  have ne: "0 < length imgs \<and> 0 < length vids \<and> 4 \<le> length imgs + length vids \<longrightarrow>
            feasible (int (length imgs)) (int (length vids)) \<noteq> {}"
    using feasible_nonempty [of "int (length imgs)" "int (length vids)"] by simp
  have e1: "\<forall>rnd e. pickRandomItems rnd imgs (images c) \<noteq> Inl e"
    using fit pickRandomItems_error_iff [of _ imgs "images c"] by (metis not_less)
  have e2: "\<forall>rnd e. pickRandomItems rnd vids (videos c) \<noteq> Inl e"
    using fit pickRandomItems_error_iff [of _ vids "videos c"] by (metis not_less)
  have s1: "\<exists>selected. pickRandomItems rnd imgs (images c) = Inr selected
                \<and> int (length selected) = images c" if "unitDraws rnd" for rnd
    using pickRandomItems_ok [OF that, of "images c" imgs] fit by auto
  have s2: "\<exists>selected. pickRandomItems rnd vids (videos c) = Inr selected
                \<and> int (length selected) = videos c" if "unitDraws rnd" for rnd
    using pickRandomItems_ok [OF that, of "videos c" vids] fit by auto
  show ?thesis using fit ne e1 e2 s1 s2 by blast
qed

lemma unitDraws_half: "unitDraws (\<lambda>i. 1 / 2)"
  by (simp add: unitDraws_def)

lemma chooseComposition_half_2_3:
  "chooseComposition (1 / 2) 2 3 = Some \<lparr>images = 2, videos = 2\<rparr>"
  by (simp add: chooseComposition_def possibleImageCounts_def randomIndex_def)

theorem composition_within_stock_witness:
  "(0::real) \<le> 1 / 2 \<and> (1 / 2 :: real) < 1
   \<and> chooseComposition (1 / 2) (int (length [''a.jpg'', ''b.jpg'']))
        (int (length [''c.mp4'', ''d.mp4'', ''e.mp4''])) = Some \<lparr>images = 2, videos = 2\<rparr>
   \<and> unitDraws (\<lambda>i. 1 / 2)
   \<and> (\<exists>selected. pickRandomItems (\<lambda>i. 1 / 2) [''a.jpg'', ''b.jpg''] 2 = Inr selected
         \<and> int (length selected) = 2)
   \<and> (\<forall>rnd e. pickRandomItems rnd [''c.mp4'', ''d.mp4'', ''e.mp4''] 2 \<noteq> Inl e)"
proof -
  have u: "(0::real) \<le> 1 / 2" "(1 / 2 :: real) < 1" by simp_all
  have c: "chooseComposition (1 / 2) (int (length [''a.jpg'', ''b.jpg'']))
        (int (length [''c.mp4'', ''d.mp4'', ''e.mp4''])) = Some \<lparr>images = 2, videos = 2\<rparr>"
    using chooseComposition_half_2_3 by simp
  show ?thesis
    using composition_within_stock [OF u c] u c unitDraws_half by simp
qed

section \<open>Facts about \<^verbatim>\<open>pickCaption\<close>\<close>

lemma availableIndexes_filter:
  "availableIndexes state = filter (\<lambda>i. \<not> used (state ! i)) [0..<length state]"
proof -
  let ?P = "\<lambda>i. \<not> used (state ! i)"
  have "filter (\<lambda>(entry, index). \<not> used entry) (zip state [0..<length state]) =
        filter (?P \<circ> snd) (zip state [0..<length state])"
    by (rule filter_cong) (auto simp: in_set_zip)
  moreover have "map snd (filter (?P \<circ> snd) (zip state [0..<length state])) =
        filter ?P (map snd (zip state [0..<length state]))"
    by (simp only: filter_map)
  ultimately show ?thesis by (simp add: availableIndexes_def)
qed

lemma ctext_marked:
  "ctext (xs[i := (xs ! i)\<lparr>used := a, used_at := b\<rparr>] ! i) = ctext (xs ! i)"
  by (cases "i < length xs") (simp_all add: list_update_beyond)

lemma set_availableIndexes: "set (availableIndexes bank) = unusedIndexes bank"
  by (auto simp add: availableIndexes_filter unusedIndexes_def)

lemma distinct_availableIndexes: "distinct (availableIndexes bank)"
  by (simp add: availableIndexes_filter)

lemma availableIndexes_Nil_iff: "availableIndexes bank = [] \<longleftrightarrow> unusedIndexes bank = {}"
  using set_availableIndexes [of bank] by (metis set_empty)

lemma unusedIndexes_reset: "unusedIndexes (map resetEntry bank) = {0..<length bank}"
  by (auto simp add: unusedIndexes_def resetEntry_def)

lemma availableIndexes_reset: "availableIndexes (map resetEntry bank) = [0..<length bank]"
  by (simp add: availableIndexes_filter resetEntry_def cong: filter_cong)

lemma length_resetIfExhausted [simp]: "length (resetIfExhausted bank) = length bank"
  by (simp add: resetIfExhausted_def)

lemma unusedIndexes_resetIfExhausted_nonempty:
  "bank \<noteq> [] \<Longrightarrow> unusedIndexes (resetIfExhausted bank) \<noteq> {}"
  by (auto simp add: resetIfExhausted_def unusedIndexes_reset)

lemma pickCaption_unfold:
  "pickCaption u now bank =
     (if bank = [] then Inl NoCaptionEntries
      else (let base = resetIfExhausted bank; i = selectedIndexOf u bank
            in Inr (ctext (base ! i),
                    base[i := (base ! i)\<lparr>used := True, used_at := JStr now\<rparr>])))"
proof (cases "bank = []")
  case True
  then show ?thesis by (simp add: pickCaption_def availableIndexes_def)
next
  case ne: False
  show ?thesis
  proof (cases "unusedIndexes bank = {}")
    case True
    then have av: "availableIndexes bank = []" by (simp add: availableIndexes_Nil_iff)
    show ?thesis
      using ne True av
      by (simp add: pickCaption_def Let_def resetIfExhausted_def selectedIndexOf_def
          availableIndexes_reset ctext_marked)
  next
    case False
    then have av: "availableIndexes bank \<noteq> []" by (simp add: availableIndexes_Nil_iff)
    show ?thesis
      using ne False av
      by (simp add: pickCaption_def Let_def resetIfExhausted_def selectedIndexOf_def
          ctext_marked)
  qed
qed

lemma selectedIndexOf_unused:
  assumes "0 \<le> u" "u < 1" "bank \<noteq> []"
  shows "selectedIndexOf u bank \<in> unusedIndexes (resetIfExhausted bank)"
proof -
  let ?av = "availableIndexes (resetIfExhausted bank)"
  have "?av \<noteq> []"
    using unusedIndexes_resetIfExhausted_nonempty [OF assms(3)]
    by (simp add: availableIndexes_Nil_iff)
  then have "randomIndex u (length ?av) < length ?av"
    using assms(1,2) by (intro randomIndex_less) auto
  then have "?av ! randomIndex u (length ?av) \<in> set ?av" by (rule nth_mem)
  then show ?thesis by (simp add: selectedIndexOf_def Let_def set_availableIndexes)
qed

lemma selectedIndexOf_interval:
  assumes "i \<in> unusedIndexes (resetIfExhausted bank)"
  shows "\<exists>a. {w. 0 \<le> w \<and> w < 1 \<and> selectedIndexOf w bank = i} =
             {a ..< a + 1 / real (card (unusedIndexes (resetIfExhausted bank)))}"
proof -
  let ?av = "availableIndexes (resetIfExhausted bank)"
  let ?n = "length ?av"
  have "i \<in> set ?av" using assms by (simp add: set_availableIndexes)
  then obtain j where j: "j < ?n" "?av ! j = i" by (auto simp: in_set_conv_nth)
  have card: "card (unusedIndexes (resetIfExhausted bank)) = ?n"
    using distinct_card [OF distinct_availableIndexes, of "resetIfExhausted bank"]
    by (simp add: set_availableIndexes)
  have "(0 \<le> w \<and> w < 1 \<and> selectedIndexOf w bank = i) =
        (0 \<le> w \<and> w < 1 \<and> randomIndex w ?n = j)" for w
  proof (cases "0 \<le> w \<and> w < 1")
    case True
    then have "randomIndex w ?n < ?n" using j(1) by (intro randomIndex_less) auto
    then have "(?av ! randomIndex w ?n = ?av ! j) = (randomIndex w ?n = j)"
      using j(1) distinct_availableIndexes [of "resetIfExhausted bank"]
      by (simp add: nth_eq_iff_index_eq)
    then show ?thesis using True j(2) by (simp add: selectedIndexOf_def Let_def)
  next
    case False
    then show ?thesis by auto
  qed
  then have "{w. 0 \<le> w \<and> w < 1 \<and> selectedIndexOf w bank = i} =
             {w. 0 \<le> w \<and> w < 1 \<and> randomIndex w ?n = j}" by simp
  then show ?thesis using randomIndex_interval [OF j(1)] card by auto
qed

lemma unusedIndexes_mark:
  "unusedIndexes (base[i := (base ! i)\<lparr>used := True, used_at := t\<rparr>]) = unusedIndexes base - {i}"
proof (cases "i < length base")
  case True
  then show ?thesis
    by (auto simp add: unusedIndexes_def nth_list_update split: if_splits)
next
  case False
  then show ?thesis
    by (auto simp add: unusedIndexes_def list_update_beyond)
qed

lemma unusedIndexes_subset: "unusedIndexes bank \<subseteq> {0..<length bank}"
  by (auto simp add: unusedIndexes_def)

lemma finite_unusedIndexes [simp]: "finite (unusedIndexes bank)"
  using unusedIndexes_subset [of bank] finite_atLeastLessThan by (rule finite_subset)

lemma bankAfter_Suc:
  assumes "bankAfter rnd now bank k \<noteq> []"
  shows "bankAfter rnd now bank (Suc k) =
         (resetIfExhausted (bankAfter rnd now bank k))
           [selectedAt rnd now bank k :=
              (resetIfExhausted (bankAfter rnd now bank k) ! selectedAt rnd now bank k)
                \<lparr>used := True, used_at := JStr (now k)\<rparr>]"
  using assms by (simp add: pickCaption_unfold Let_def selectedAt_def)

lemma length_bankAfter [simp]: "length (bankAfter rnd now bank k) = length bank"
proof (induction k)
  case 0
  show ?case by simp
next
  case (Suc k)
  show ?case
  proof (cases "bankAfter rnd now bank k = []")
    case True
    then show ?thesis using Suc by (simp add: pickCaption_unfold)
  next
    case False
    then show ?thesis using Suc by (simp add: bankAfter_Suc del: bankAfter.simps)
  qed
qed

lemma resetIfExhausted_id: "unusedIndexes bank \<noteq> {} \<Longrightarrow> resetIfExhausted bank = bank"
  by (simp add: resetIfExhausted_def)

lemma rotation_invariant:
  fixes bank :: "'i caption_entry list"
  assumes draws: "unitDraws rnd" and ne: "bank \<noteq> []"
    and k: "k \<le> card (unusedIndexes (resetIfExhausted bank))"
  shows "selectedAt rnd now bank ` {..<k} \<subseteq> unusedIndexes (resetIfExhausted bank)
       \<and> inj_on (selectedAt rnd now bank) {..<k}
       \<and> (0 < k \<longrightarrow> unusedIndexes (bankAfter rnd now bank k) =
             unusedIndexes (resetIfExhausted bank) - selectedAt rnd now bank ` {..<k})"
  using k
proof (induction k)
  case 0
  show ?case by simp
next
  case (Suc k)
  let ?U = "unusedIndexes (resetIfExhausted bank)"
  let ?s = "selectedAt rnd now bank"
  let ?b = "bankAfter rnd now bank k"
  have kk: "k < card ?U" using Suc.prems by simp
  have IH: "?s ` {..<k} \<subseteq> ?U" "inj_on ?s {..<k}"
    "0 < k \<Longrightarrow> unusedIndexes ?b = ?U - ?s ` {..<k}"
    using Suc.IH kk by simp_all
  have u: "0 \<le> rnd k" "rnd k < 1" using draws by (simp_all add: unitDraws_def)
  have bne: "?b \<noteq> []" using ne length_bankAfter [of rnd now bank k] by (metis length_0_conv)
  have base: "unusedIndexes (resetIfExhausted ?b) = ?U - ?s ` {..<k}"
  proof (cases "k = 0")
    case True
    then show ?thesis by simp
  next
    case False
    then have un: "unusedIndexes ?b = ?U - ?s ` {..<k}" using IH(3) by simp
    have "card (?s ` {..<k}) = k" using IH(2) by (simp add: card_image)
    then have "card (?U - ?s ` {..<k}) = card ?U - k"
      using IH(1) by (simp add: card_Diff_subset)
    then have "card (unusedIndexes ?b) > 0" using kk un by simp
    then have "unusedIndexes ?b \<noteq> {}" by auto
    then show ?thesis using un by (simp add: resetIfExhausted_id)
  qed
  have sel: "?s k \<in> ?U - ?s ` {..<k}"
    using selectedIndexOf_unused [OF u bne] base by (simp add: selectedAt_def)
  have next_unused: "unusedIndexes (bankAfter rnd now bank (Suc k)) = ?U - ?s ` {..<k} - {?s k}"
    using base by (simp only: bankAfter_Suc [OF bne] unusedIndexes_mark)
  have "?s ` {..<Suc k} \<subseteq> ?U" using IH(1) sel by (auto simp add: lessThan_Suc)
  moreover have "inj_on ?s {..<Suc k}" using IH(2) sel by (simp add: lessThan_Suc)
  moreover have "unusedIndexes (bankAfter rnd now bank (Suc k)) = ?U - ?s ` {..<Suc k}"
    using next_unused by (auto simp add: lessThan_Suc)
  ultimately show ?case by blast
qed

lemma rotation_no_reset:
  fixes bank :: "'i caption_entry list"
  assumes "unitDraws rnd" "bank \<noteq> []"
    and "0 < k" "k < card (unusedIndexes (resetIfExhausted bank))"
  shows "unusedIndexes (bankAfter rnd now bank k) \<noteq> {}"
proof -
  let ?U = "unusedIndexes (resetIfExhausted bank)"
  let ?s = "selectedAt rnd now bank"
  have inv: "?s ` {..<k} \<subseteq> ?U" "inj_on ?s {..<k}"
    "unusedIndexes (bankAfter rnd now bank k) = ?U - ?s ` {..<k}"
    using rotation_invariant [OF assms(1,2), of k now] assms(3,4) by simp_all
  have "card (?s ` {..<k}) = k" using inv(2) by (simp add: card_image)
  then have "card (?U - ?s ` {..<k}) = card ?U - k"
    using inv(1) by (simp add: card_Diff_subset)
  then have "card (unusedIndexes (bankAfter rnd now bank k)) > 0" using assms(4) inv(3) by simp
  then show ?thesis by auto
qed

lemma rotation_complete:
  fixes bank :: "'i caption_entry list"
  assumes "unitDraws rnd" "bank \<noteq> []"
  shows "selectedAt rnd now bank ` {..<card (unusedIndexes (resetIfExhausted bank))} =
           unusedIndexes (resetIfExhausted bank)
       \<and> inj_on (selectedAt rnd now bank) {..<card (unusedIndexes (resetIfExhausted bank))}
       \<and> unusedIndexes (bankAfter rnd now bank (card (unusedIndexes (resetIfExhausted bank)))) = {}"
proof -
  let ?U = "unusedIndexes (resetIfExhausted bank)"
  let ?s = "selectedAt rnd now bank"
  let ?m = "card ?U"
  have m: "0 < ?m"
    using unusedIndexes_resetIfExhausted_nonempty [OF assms(2)] by (simp add: card_gt_0_iff)
  have inv: "?s ` {..<?m} \<subseteq> ?U" "inj_on ?s {..<?m}"
    "unusedIndexes (bankAfter rnd now bank ?m) = ?U - ?s ` {..<?m}"
    using rotation_invariant [OF assms, of ?m now] m by simp_all
  have "card (?s ` {..<?m}) = ?m" using inv(2) by (simp add: card_image)
  then have eq: "?s ` {..<?m} = ?U" using inv(1) by (simp add: card_subset_eq)
  then show ?thesis using inv by simp
qed

lemma marked_bank_eq_iff:
  assumes "i \<in> unusedIndexes base" "j \<in> unusedIndexes base"
  shows "base[j := (base ! j)\<lparr>used := True, used_at := t\<rparr>] =
         base[i := (base ! i)\<lparr>used := True, used_at := t\<rparr>] \<longleftrightarrow> j = i"
proof
  assume eq: "base[j := (base ! j)\<lparr>used := True, used_at := t\<rparr>] =
              base[i := (base ! i)\<lparr>used := True, used_at := t\<rparr>]"
  have "unusedIndexes base - {j} = unusedIndexes base - {i}"
    using arg_cong [OF eq, of unusedIndexes] by (simp only: unusedIndexes_mark)
  then show "j = i" using assms by blast
qed simp

lemma ctext_resetIfExhausted: "i < length bank \<Longrightarrow> ctext (resetIfExhausted bank ! i) = ctext (bank ! i)"
  by (simp add: resetIfExhausted_def resetEntry_def)

text \<open>
  Claim C2. \<^verbatim>\<open>pickCaption\<close> fails exactly when the bank has no entry. Otherwise it
  selects from the bank itself, or, when no entry is unused, from the bank with every
  entry reset to \<open>used = false, used_at = null\<close>; the selected entry is one of the unused
  ones, each of them being selected on an interval of draws of width one over their number
  (a uniform choice); the result is the text of that entry and the whole bank with that
  entry marked \<open>used = true\<close> at the current time. Over repeated runs, with \<open>m\<close> the number
  of entries available to the first pick: the first \<open>m\<close> picks select pairwise different
  entries, which are exactly those \<open>m\<close> entries; none of the picks after the first finds
  the bank exhausted, so none of them resets; and after them no entry is unused. For a
  bank with no used entry these are all its entries.
\<close>

theorem pickCaption_rotation:
  fixes bank :: "'i caption_entry list"
  assumes "0 \<le> u" "u < 1" "unitDraws rnd"
  shows "((\<exists>e. pickCaption u now bank = Inl e) \<longleftrightarrow> bank = [])
       \<and> (bank = [] \<longrightarrow> pickCaption u now bank = Inl NoCaptionEntries)
       \<and> (bank \<noteq> [] \<longrightarrow>
            (\<exists>i \<in> unusedIndexes (resetIfExhausted bank).
               pickCaption u now bank =
                 Inr (ctext (bank ! i),
                      (resetIfExhausted bank)
                        [i := (resetIfExhausted bank ! i)\<lparr>used := True, used_at := JStr now\<rparr>]))
          \<and> (\<forall>i \<in> unusedIndexes (resetIfExhausted bank). \<exists>a.
               {w. 0 \<le> w \<and> w < 1 \<and>
                   pickCaption w now bank =
                     Inr (ctext (bank ! i),
                          (resetIfExhausted bank)
                            [i := (resetIfExhausted bank ! i)\<lparr>used := True, used_at := JStr now\<rparr>])} =
               {a ..< a + 1 / real (card (unusedIndexes (resetIfExhausted bank)))})
          \<and> selectedAt rnd clock bank ` {..<card (unusedIndexes (resetIfExhausted bank))} =
               unusedIndexes (resetIfExhausted bank)
          \<and> inj_on (selectedAt rnd clock bank) {..<card (unusedIndexes (resetIfExhausted bank))}
          \<and> (\<forall>k. 0 < k \<and> k < card (unusedIndexes (resetIfExhausted bank)) \<longrightarrow>
                unusedIndexes (bankAfter rnd clock bank k) \<noteq> {})
          \<and> unusedIndexes (bankAfter rnd clock bank (card (unusedIndexes (resetIfExhausted bank)))) = {}
          \<and> ((\<forall>entry \<in> set bank. \<not> used entry) \<longrightarrow>
                unusedIndexes (resetIfExhausted bank) = {0..<length bank}))"
proof (intro conjI impI)
  show "(\<exists>e. pickCaption u now bank = Inl e) \<longleftrightarrow> bank = []"
    by (simp add: pickCaption_unfold Let_def)
next
  assume "bank = []"
  then show "pickCaption u now bank = Inl NoCaptionEntries" by (simp add: pickCaption_unfold)
next
  assume ne: "bank \<noteq> []"
  let ?base = "resetIfExhausted bank"
  let ?i = "selectedIndexOf u bank"
  have i: "?i \<in> unusedIndexes ?base" using selectedIndexOf_unused [OF assms(1,2) ne] .
  then have "?i < length bank" by (simp add: unusedIndexes_def)
  then have "ctext (?base ! ?i) = ctext (bank ! ?i)" by (rule ctext_resetIfExhausted)
  then have "pickCaption u now bank =
      Inr (ctext (bank ! ?i), ?base[?i := (?base ! ?i)\<lparr>used := True, used_at := JStr now\<rparr>])"
    using ne by (simp add: pickCaption_unfold Let_def)
  then show "\<exists>i \<in> unusedIndexes ?base. pickCaption u now bank =
      Inr (ctext (bank ! i), ?base[i := (?base ! i)\<lparr>used := True, used_at := JStr now\<rparr>])"
    using i by blast
next
  assume ne: "bank \<noteq> []"
  let ?base = "resetIfExhausted bank"
  show "\<forall>i \<in> unusedIndexes ?base. \<exists>a.
      {w. 0 \<le> w \<and> w < 1 \<and> pickCaption w now bank =
          Inr (ctext (bank ! i), ?base[i := (?base ! i)\<lparr>used := True, used_at := JStr now\<rparr>])} =
      {a ..< a + 1 / real (card (unusedIndexes ?base))}"
  proof
    fix i assume i: "i \<in> unusedIndexes ?base"
    have "(0 \<le> w \<and> w < 1 \<and> pickCaption w now bank =
            Inr (ctext (bank ! i), ?base[i := (?base ! i)\<lparr>used := True, used_at := JStr now\<rparr>])) =
          (0 \<le> w \<and> w < 1 \<and> selectedIndexOf w bank = i)" for w
    proof (cases "0 \<le> w \<and> w < 1")
      case True
      then have j: "selectedIndexOf w bank \<in> unusedIndexes ?base"
        using selectedIndexOf_unused [of w bank] ne by simp
      have "i < length bank" using i by (simp add: unusedIndexes_def)
      then have t: "ctext (?base ! i) = ctext (bank ! i)" by (rule ctext_resetIfExhausted)
      show ?thesis
        using True ne marked_bank_eq_iff [OF i j, of "JStr now"] t
        by (auto simp add: pickCaption_unfold Let_def)
    next
      case False
      then show ?thesis by auto
    qed
    then have "{w. 0 \<le> w \<and> w < 1 \<and> pickCaption w now bank =
          Inr (ctext (bank ! i), ?base[i := (?base ! i)\<lparr>used := True, used_at := JStr now\<rparr>])} =
        {w. 0 \<le> w \<and> w < 1 \<and> selectedIndexOf w bank = i}" by simp
    then show "\<exists>a. {w. 0 \<le> w \<and> w < 1 \<and> pickCaption w now bank =
          Inr (ctext (bank ! i), ?base[i := (?base ! i)\<lparr>used := True, used_at := JStr now\<rparr>])} =
        {a ..< a + 1 / real (card (unusedIndexes ?base))}"
      using selectedIndexOf_interval [OF i] by simp
  qed
next
  assume ne: "bank \<noteq> []"
  show "selectedAt rnd clock bank ` {..<card (unusedIndexes (resetIfExhausted bank))} =
        unusedIndexes (resetIfExhausted bank)"
    using rotation_complete [OF assms(3) ne] by blast
next
  assume ne: "bank \<noteq> []"
  show "inj_on (selectedAt rnd clock bank) {..<card (unusedIndexes (resetIfExhausted bank))}"
    using rotation_complete [OF assms(3) ne] by blast
next
  assume ne: "bank \<noteq> []"
  show "\<forall>k. 0 < k \<and> k < card (unusedIndexes (resetIfExhausted bank)) \<longrightarrow>
            unusedIndexes (bankAfter rnd clock bank k) \<noteq> {}"
    using rotation_no_reset [OF assms(3) ne] by blast
next
  assume ne: "bank \<noteq> []"
  show "unusedIndexes (bankAfter rnd clock bank (card (unusedIndexes (resetIfExhausted bank)))) = {}"
    using rotation_complete [OF assms(3) ne] by blast
next
  assume ne: "bank \<noteq> []" and fresh: "\<forall>entry \<in> set bank. \<not> used entry"
  have "unusedIndexes bank = {0..<length bank}"
    using fresh by (auto simp add: unusedIndexes_def)
  then show "unusedIndexes (resetIfExhausted bank) = {0..<length bank}"
    using ne by (simp add: resetIfExhausted_def)
qed

theorem pickCaption_rotation_witness:
  "(0::real) \<le> 1 / 2 \<and> (1 / 2 :: real) < 1 \<and> unitDraws (\<lambda>i. 1 / 2)
   \<and> [\<lparr>cid = 1::int, ctext = ''Hi'', used = False, used_at = JNull\<rparr>] \<noteq> []
   \<and> unusedIndexes (resetIfExhausted [\<lparr>cid = 1::int, ctext = ''Hi'', used = False, used_at = JNull\<rparr>]) = {0..<1}
   \<and> \<not> (\<exists>e. pickCaption (1 / 2) ''2026-02-22T14:00:00.000Z''
              [\<lparr>cid = 1::int, ctext = ''Hi'', used = False, used_at = JNull\<rparr>] = Inl e)"
proof -
  have u: "(0::real) \<le> 1 / 2" "(1 / 2 :: real) < 1" by simp_all
  show ?thesis
    using pickCaption_rotation [OF u unitDraws_half,
        of "''2026-02-22T14:00:00.000Z''" "[\<lparr>cid = 1::int, ctext = ''Hi'', used = False, used_at = JNull\<rparr>]"]
      u unitDraws_half
    by simp
qed

lemma pickCaption_example:
  "pickCaption (1 / 2) ''2026-02-22T14:00:00.000Z''
     [\<lparr>cid = 1::int, ctext = ''Hi'', used = False, used_at = JNull\<rparr>] =
   Inr (''Hi'', [\<lparr>cid = 1, ctext = ''Hi'', used = True, used_at = JStr ''2026-02-22T14:00:00.000Z''\<rparr>])"
  by (simp add: pickCaption_def availableIndexes_def randomIndex_def)

section \<open>Facts about the wizard's \<^verbatim>\<open>normalizeCaptions\<close>\<close>

lemma plusOne_ge: "x \<le> plusOne x"
  by (simp add: plusOne_def)

lemma plusOne_mono: "x \<le> y \<Longrightarrow> plusOne x \<le> plusOne y"
  unfolding plusOne_def by (simp split: if_splits) presburger

lemma max_plusOne [simp]: "max x (plusOne x) = plusOne x"
  using plusOne_ge [of x] by (simp add: max_def)

lemma positiveId_pos: "positiveId coerce entry = Some n \<Longrightarrow> 0 < n"
  by (cases entry) (auto split: option.splits if_splits)

lemma captionStep_uniform:
  "captionStep coerce (fallbackId, normalized) entry =
     (if entryText entry = [] then (fallbackId, normalized)
      else (let id = (case positiveId coerce entry of Some n \<Rightarrow> n | None \<Rightarrow> fallbackId)
            in (max fallbackId (plusOne id),
                normalized @ [\<lparr>cid = id, ctext = entryText entry,
                                used = entryUsed entry, used_at = entryUsedAt entry\<rparr>])))"
  by (cases entry) (auto simp add: Let_def split: option.splits)

lemma fallback_snoc:
  fixes acc :: "int caption_entry list"
  shows "Max (insert 1 (plusOne ` cid ` set (acc @ [x]))) =
         max (plusOne (cid x)) (Max (insert 1 (plusOne ` cid ` set acc)))"
proof -
  have "insert 1 (plusOne ` cid ` set (acc @ [x])) =
        insert (plusOne (cid x)) (insert 1 (plusOne ` cid ` set acc))" by auto
  then show ?thesis by (simp add: Max_insert)
qed

lemma fallback_Max:
  fixes acc :: "int caption_entry list"
  assumes "\<forall>x \<in> set acc. 0 < cid x"
  shows "Max (insert 1 (plusOne ` cid ` set acc)) =
         (if acc = [] then 1 else plusOne (Max (cid ` set acc)))"
proof (cases "acc = []")
  case True
  then show ?thesis by simp
next
  case False
  let ?A = "cid ` set acc"
  have fin: "finite ?A" and ne: "?A \<noteq> {}" using False by simp_all
  have "mono plusOne" by (rule monoI) (rule plusOne_mono)
  then have m: "plusOne (Max ?A) = Max (plusOne ` ?A)"
    using fin ne by (rule mono_Max_commute)
  have "Max ?A \<in> ?A" using fin ne by (rule Max_in)
  then have "0 < Max ?A" using assms by auto
  then have "1 \<le> plusOne (Max ?A)" using plusOne_ge [of "Max ?A"] by simp
  moreover have "Max (insert 1 (plusOne ` ?A)) = max 1 (Max (plusOne ` ?A))"
    using fin ne by (simp add: Max_insert)
  ultimately show ?thesis using False m by (simp add: max_def)
qed

lemma staged_invariant:
  fixes coerce :: "jsval \<Rightarrow> int option"
  defines "kept \<equiv> \<lambda>entries. filter (\<lambda>entry. entryText entry \<noteq> []) entries"
  shows "(case foldl (captionStep coerce) (1, []) entries of (fallbackId, st) \<Rightarrow>
           fallbackId = Max (insert 1 (plusOne ` cid ` set st))
         \<and> (\<forall>x \<in> set st. 0 < cid x)
         \<and> length st = length (kept entries)
         \<and> (\<forall>j < length st.
               ctext (st ! j) = entryText (kept entries ! j)
             \<and> used (st ! j) = entryUsed (kept entries ! j)
             \<and> used_at (st ! j) = entryUsedAt (kept entries ! j)
             \<and> cid (st ! j) = (case positiveId coerce (kept entries ! j) of
                                 Some n \<Rightarrow> n
                               | None \<Rightarrow> Max (insert 1 (plusOne ` cid ` set (take j st))))))"
proof (induction entries rule: rev_induct)
  case Nil
  show ?case by (simp add: kept_def)
next
  case (snoc entry entries)
  obtain f st where fs: "foldl (captionStep coerce) (1, []) entries = (f, st)"
    by (cases "foldl (captionStep coerce) (1, []) entries")
  have IH: "f = Max (insert 1 (plusOne ` cid ` set st))" "length st = length (kept entries)"
    "\<And>j. j < length st \<Longrightarrow>
        ctext (st ! j) = entryText (kept entries ! j)
      \<and> used (st ! j) = entryUsed (kept entries ! j)
      \<and> used_at (st ! j) = entryUsedAt (kept entries ! j)
      \<and> cid (st ! j) = (case positiveId coerce (kept entries ! j) of
                          Some n \<Rightarrow> n
                        | None \<Rightarrow> Max (insert 1 (plusOne ` cid ` set (take j st))))"
    and pos: "\<forall>x \<in> set st. 0 < cid x"
    using snoc.IH fs by simp_all
  show ?case
  proof (cases "entryText entry = []")
    case True
    then have "foldl (captionStep coerce) (1, []) (entries @ [entry]) = (f, st)"
      by (simp add: fs captionStep_uniform)
    moreover have "kept (entries @ [entry]) = kept entries" using True by (simp add: kept_def)
    ultimately show ?thesis using IH pos by simp
  next
    case False
    define id where "id = (case positiveId coerce entry of Some n \<Rightarrow> n | None \<Rightarrow> f)"
    define x where "x = \<lparr>cid = id, ctext = entryText entry,
                           used = entryUsed entry, used_at = entryUsedAt entry\<rparr>"
    have step: "foldl (captionStep coerce) (1, []) (entries @ [entry]) = (max f (plusOne id), st @ [x])"
      using False by (simp add: fs captionStep_uniform Let_def id_def x_def)
    have k: "kept (entries @ [entry]) = kept entries @ [entry]" using False by (simp add: kept_def)
    have f1: "max f (plusOne id) = Max (insert 1 (plusOne ` cid ` set (st @ [x])))"
      unfolding fallback_snoc using IH(1) by (simp add: x_def max.commute)
    have "1 \<le> f" unfolding IH(1) by (rule Max_ge) simp_all
    then have "0 < id"
      using positiveId_pos [of coerce entry] by (cases "positiveId coerce entry") (simp_all add: id_def)
    then have pos': "\<forall>y \<in> set (st @ [x]). 0 < cid y" using pos by (simp add: x_def)
    have len: "length (st @ [x]) = length (kept (entries @ [entry]))"
      using IH(2) k by simp
    have elems: "ctext ((st @ [x]) ! j) = entryText (kept (entries @ [entry]) ! j)
        \<and> used ((st @ [x]) ! j) = entryUsed (kept (entries @ [entry]) ! j)
        \<and> used_at ((st @ [x]) ! j) = entryUsedAt (kept (entries @ [entry]) ! j)
        \<and> cid ((st @ [x]) ! j) = (case positiveId coerce (kept (entries @ [entry]) ! j) of
                          Some n \<Rightarrow> n
                        | None \<Rightarrow> Max (insert 1 (plusOne ` cid ` set (take j (st @ [x])))))"
      if "j < length (st @ [x])" for j
    proof (cases "j < length st")
      case True
      then have "take j (st @ [x]) = take j st" by simp
      then show ?thesis
        using IH(3) [OF True] IH(2) k True by (simp add: nth_append cong: option.case_cong)
    next
      case False
      then have j: "j = length st" using that by simp
      show ?thesis
        using IH(1) IH(2) k by (simp add: j nth_append x_def id_def split: option.splits)
    qed
    show ?thesis using step f1 pos' len elems by simp
  qed
qed

lemma length_reindexCaptions [simp]: "length (reindexCaptions captions) = length captions"
  by (simp add: reindexCaptions_def)

lemma nth_reindexCaptions:
  "i < length captions \<Longrightarrow> reindexCaptions captions ! i = (captions ! i)\<lparr>cid := int i + 1\<rparr>"
  by (simp add: reindexCaptions_def nth_enumerate_eq)

lemma upto_from_1: "map (\<lambda>i. int i + 1) [0..<n] = [1..int n]"
proof (induction n)
  case 0
  show ?case by simp
next
  case (Suc n)
  have "[1..int (Suc n)] = [1..int n] @ [int n + 1]"
    using upto_rec2 [of 1 "int n + 1"] by (simp add: add.commute)
  then show ?case using Suc by simp
qed

lemma cid_reindexCaptions: "map cid (reindexCaptions captions) = [1..int (length captions)]"
proof -
  have "map cid (reindexCaptions captions) = map (\<lambda>i. int i + 1) [0..<length captions]"
    by (rule nth_equalityI) (simp_all add: nth_reindexCaptions)
  then show ?thesis by (simp add: upto_from_1)
qed


lemma reindexCaptions_id:
  assumes "map cid captions = [1..int (length captions)]"
  shows "reindexCaptions captions = captions"
proof (rule nth_equalityI)
  show "length (reindexCaptions captions) = length captions" by simp
next
  fix i assume "i < length (reindexCaptions captions)"
  then have i: "i < length captions" by simp
  have "cid (captions ! i) = map cid captions ! i" using i by simp
  also have "\<dots> = map (\<lambda>i. int i + 1) [0..<length captions] ! i"
    using assms by (simp only: upto_from_1)
  also have "\<dots> = int i + 1" using i by simp
  finally show "reindexCaptions captions ! i = captions ! i"
    using i by (simp add: nth_reindexCaptions)
qed

section \<open>Facts about the engine's \<^verbatim>\<open>normalizeCaptionEntries\<close>\<close>

lemma normalizeCaptionEntry_uniform:
  "normalizeCaptionEntry index entry =
     (if (\<forall>s. entry \<noteq> JStr s) \<and> \<not> isObject entry then Inl (InvalidCaptionEntry index)
      else if (\<forall>s. entry \<noteq> JStr s) \<and> entryText entry = [] then Inl (CaptionWithoutText index)
      else Inr \<lparr>cid = nullish (rawId entry) (JNum (int index + 1)), ctext = entryText entry,
                used = entryUsed entry, used_at = entryUsedAt entry\<rparr>)"
  by (cases entry) (simp_all add: Let_def nullish_def)

lemma mapCaptionEntries_Inr:
  assumes "mapCaptionEntries index entries = Inr result"
  shows "length result = length entries
       \<and> (\<forall>i < length entries.
             cid (result ! i) = nullish (rawId (entries ! i)) (JNum (int (index + i) + 1))
           \<and> ctext (result ! i) = entryText (entries ! i)
           \<and> used (result ! i) = entryUsed (entries ! i)
           \<and> used_at (result ! i) = entryUsedAt (entries ! i))"
  using assms
proof (induction entries arbitrary: index result)
  case Nil
  then show ?case by simp
next
  case (Cons entry rest)
  from Cons.prems obtain x xs where
    x: "normalizeCaptionEntry index entry = Inr x" and
    xs: "mapCaptionEntries (Suc index) rest = Inr xs" and
    r: "result = x # xs"
    by (auto split: sum.splits)
  have hd: "cid x = nullish (rawId entry) (JNum (int index + 1)) \<and> ctext x = entryText entry
      \<and> used x = entryUsed entry \<and> used_at x = entryUsedAt entry"
    using x by (auto simp add: normalizeCaptionEntry_uniform split: if_splits)
  note IH = Cons.IH [OF xs]
  show ?case
  proof (intro conjI allI impI)
    show "length result = length (entry # rest)" using IH r by simp
  next
    fix i assume "i < length (entry # rest)"
    then show "cid (result ! i) = nullish (rawId ((entry # rest) ! i)) (JNum (int (index + i) + 1))"
      "ctext (result ! i) = entryText ((entry # rest) ! i)"
      "used (result ! i) = entryUsed ((entry # rest) ! i)"
      "used_at (result ! i) = entryUsedAt ((entry # rest) ! i)"
      using IH hd r by (cases i; simp)+
  qed
qed


section \<open>Facts about \<^verbatim>\<open>trim\<close>\<close>

lemma dropWhile_no_lead: "xs = [] \<or> \<not> P (hd xs) \<Longrightarrow> dropWhile P xs = xs"
  by (cases xs) auto

lemma dropWhile_lead: "dropWhile P xs = [] \<or> \<not> P (hd (dropWhile P xs))"
  using hd_dropWhile [of P xs] by blast

lemma rev_dropWhile_rev_take: "rev (dropWhile P (rev t)) = take (length t - length (takeWhile P (rev t))) t"
  by (simp add: dropWhile_eq_drop rev_drop)

lemma trim_no_lead: "trim s = [] \<or> \<not> isWhiteSpace (hd (trim s))"
proof -
  let ?t = "dropWhile isWhiteSpace s"
  let ?k = "length ?t - length (takeWhile isWhiteSpace (rev ?t))"
  have t: "trim s = take ?k ?t" by (simp add: trim_def rev_dropWhile_rev_take)
  show ?thesis
  proof (cases "trim s = []")
    case True
    then show ?thesis by simp
  next
    case False
    then have "?k \<noteq> 0" "?t \<noteq> []" using t by auto
    then have "hd (trim s) = hd ?t" using t by (simp add: hd_take)
    moreover have "\<not> isWhiteSpace (hd ?t)"
      using dropWhile_lead [of isWhiteSpace s] \<open>?t \<noteq> []\<close> by blast
    ultimately show ?thesis by simp
  qed
qed

lemma trim_trim [simp]: "trim (trim s) = trim s"
proof -
  have a: "dropWhile isWhiteSpace (trim s) = trim s"
    using trim_no_lead [of s] by (rule dropWhile_no_lead)
  have "trim (trim s) = rev (dropWhile isWhiteSpace (rev (trim s)))"
    by (simp add: trim_def [of "trim s"] a)
  also have "\<dots> = rev (dropWhile isWhiteSpace (dropWhile isWhiteSpace (rev (dropWhile isWhiteSpace s))))"
    by (simp add: trim_def)
  also have "\<dots> = trim s" by (simp add: trim_def dropWhile_idem)
  finally show ?thesis .
qed

lemma trim_Nil [simp]: "trim [] = []"
  by (simp add: trim_def)

lemma entryText_trimmed: "trim (entryText entry) = entryText entry"
  by (cases entry) simp_all

section \<open>Caption normalization: the two normalizers\<close>

lemma staged_facts:
  fixes coerce :: "jsval \<Rightarrow> int option"
  shows "length (stagedCaptions coerce entries) =
           length (filter (\<lambda>entry. entryText entry \<noteq> []) entries)"
    and "j < length (stagedCaptions coerce entries) \<Longrightarrow>
           ctext (stagedCaptions coerce entries ! j) =
             entryText (filter (\<lambda>entry. entryText entry \<noteq> []) entries ! j)"
    and "j < length (stagedCaptions coerce entries) \<Longrightarrow>
           used_at (stagedCaptions coerce entries ! j) =
             entryUsedAt (filter (\<lambda>entry. entryText entry \<noteq> []) entries ! j)"
    and "j < length (stagedCaptions coerce entries) \<Longrightarrow>
           cid (stagedCaptions coerce entries ! j) =
             (case positiveId coerce (filter (\<lambda>entry. entryText entry \<noteq> []) entries ! j) of
                Some n \<Rightarrow> n
              | None \<Rightarrow> if j = 0 then 1
                        else plusOne (Max (cid ` set (take j (stagedCaptions coerce entries)))))"
proof -
  obtain f st where fs: "foldl (captionStep coerce) (1, []) entries = (f, st)"
    by (cases "foldl (captionStep coerce) (1, []) entries")
  have st: "stagedCaptions coerce entries = st" by (simp add: stagedCaptions_def fs)
  note inv = staged_invariant [where coerce = coerce and entries = entries, unfolded fs prod.case]
  show "length (stagedCaptions coerce entries) =
           length (filter (\<lambda>entry. entryText entry \<noteq> []) entries)"
    unfolding st using inv by blast
  show "j < length (stagedCaptions coerce entries) \<Longrightarrow>
           ctext (stagedCaptions coerce entries ! j) =
             entryText (filter (\<lambda>entry. entryText entry \<noteq> []) entries ! j)"
    unfolding st using inv by blast
  show "j < length (stagedCaptions coerce entries) \<Longrightarrow>
           used_at (stagedCaptions coerce entries ! j) =
             entryUsedAt (filter (\<lambda>entry. entryText entry \<noteq> []) entries ! j)"
    unfolding st using inv by blast
  show "j < length (stagedCaptions coerce entries) \<Longrightarrow>
           cid (stagedCaptions coerce entries ! j) =
             (case positiveId coerce (filter (\<lambda>entry. entryText entry \<noteq> []) entries ! j) of
                Some n \<Rightarrow> n
              | None \<Rightarrow> if j = 0 then 1
                        else plusOne (Max (cid ` set (take j (stagedCaptions coerce entries)))))"
  proof -
    assume j: "j < length (stagedCaptions coerce entries)"
    then have jst: "j < length st" by (simp only: st)
    have "\<forall>x \<in> set (take j st). 0 < cid x" using inv by (blast dest: in_set_takeD)
    then have "Max (insert 1 (plusOne ` cid ` set (take j st))) =
               (if take j st = [] then 1 else plusOne (Max (cid ` set (take j st))))"
      by (rule fallback_Max)
    moreover have "take j st = [] \<longleftrightarrow> j = 0" using jst by (cases st) auto
    moreover have "cid (st ! j) =
        (case positiveId coerce (filter (\<lambda>entry. entryText entry \<noteq> []) entries ! j) of
           Some n \<Rightarrow> n
         | None \<Rightarrow> Max (insert 1 (plusOne ` cid ` set (take j st))))"
      using inv jst by blast
    ultimately show ?thesis unfolding st by (simp only:)
  qed
qed



lemma normalizeCaptions_example:
  "normalizeCaptions (\<lambda>v. None)
     (JArr [JObj [(''id'', JNum 5), (''text'', JStr ''a'')], JStr ''  '', JStr '' b '',
            JObj [(''id'', JNum 2), (''caption'', JStr ''c''), (''used'', JNum 1)]]) =
   [\<lparr>cid = 1, ctext = ''c'', used = True, used_at = JNull\<rparr>,
    \<lparr>cid = 2, ctext = ''a'', used = False, used_at = JNull\<rparr>,
    \<lparr>cid = 3, ctext = ''b'', used = False, used_at = JNull\<rparr>]"
  by (simp add: stagedCaptions_def reindexCaptions_def textCandidate_def trim_def
      isWhiteSpace_def nullish_def enumerate_eq_zip plusOne_def)

text \<open>
  From \<open>2^53\<close> on the fallback id is no longer new: \<^verbatim>\<open>2^53 + 1\<close> is \<^verbatim>\<open>2^53\<close>, the three
  entries get the same id and stay in their order.
\<close>

lemma normalizeCaptions_large_ids:
  "normalizeCaptions (\<lambda>v. None)
     (JArr [JObj [(''id'', JNum 9007199254740992), (''text'', JStr ''a'')], JStr ''b'',
            JObj [(''id'', JNum 9007199254740992), (''text'', JStr ''c'')]]) =
   [\<lparr>cid = 1, ctext = ''a'', used = False, used_at = JNull\<rparr>,
    \<lparr>cid = 2, ctext = ''b'', used = False, used_at = JNull\<rparr>,
    \<lparr>cid = 3, ctext = ''c'', used = False, used_at = JNull\<rparr>]"
  by (simp add: stagedCaptions_def reindexCaptions_def textCandidate_def trim_def
      isWhiteSpace_def nullish_def enumerate_eq_zip plusOne_def)



section \<open>Normalizing a normalized bank\<close>

lemma entryUsedAt_defined: "entryUsedAt entry \<noteq> JUndefined"
  by (cases entry) (simp_all add: nullish_def)

lemma captionStep_wizardEntryJson:
  assumes "ctext e \<noteq> []" "trim (ctext e) = ctext e" "0 < cid e" "used_at e \<noteq> JUndefined"
  shows "captionStep coerce (fallbackId, normalized) (wizardEntryJson e) =
         (max fallbackId (plusOne (cid e)), normalized @ [e])"
  using assms
  by (simp add: wizardEntryJson_def textCandidate_def nullish_def Let_def)

lemma staged_of_normalized:
  assumes "\<forall>e \<in> set captions.
             ctext e \<noteq> [] \<and> trim (ctext e) = ctext e \<and> 0 < cid e \<and> used_at e \<noteq> JUndefined"
  shows "snd (foldl (captionStep coerce) (fallbackId, normalized) (map wizardEntryJson captions)) =
         normalized @ captions"
  using assms
proof (induction captions arbitrary: fallbackId normalized)
  case Nil
  show ?case by simp
next
  case (Cons e rest)
  have "captionStep coerce (fallbackId, normalized) (wizardEntryJson e) =
        (max fallbackId (plusOne (cid e)), normalized @ [e])"
    using Cons.prems by (intro captionStep_wizardEntryJson) simp_all
  then show ?case using Cons.IH [of "max fallbackId (plusOne (cid e))" "normalized @ [e]"] Cons.prems
    by simp
qed

lemma staged_elements:
  assumes "x \<in> set (stagedCaptions coerce entries)"
  shows "ctext x \<noteq> [] \<and> trim (ctext x) = ctext x \<and> used_at x \<noteq> JUndefined"
proof -
  let ?kept = "filter (\<lambda>entry. entryText entry \<noteq> []) entries"
  obtain j where j: "j < length (stagedCaptions coerce entries)"
    "stagedCaptions coerce entries ! j = x"
    using assms by (auto simp add: in_set_conv_nth)
  have "j < length ?kept" using j(1) by (simp add: staged_facts(1))
  then have "?kept ! j \<in> set ?kept" by (rule nth_mem)
  then have ne: "entryText (?kept ! j) \<noteq> []" by simp
  have "ctext x = entryText (?kept ! j)" using staged_facts(2) [OF j(1)] j(2) by simp
  moreover have "used_at x = entryUsedAt (?kept ! j)" using staged_facts(3) [OF j(1)] j(2) by simp
  ultimately show ?thesis using ne by (simp add: entryText_trimmed entryUsedAt_defined)
qed

lemma normalizeCaptions_elements:
  assumes "e \<in> set (normalizeCaptions coerce raw)"
  shows "ctext e \<noteq> [] \<and> trim (ctext e) = ctext e \<and> 0 < cid e \<and> used_at e \<noteq> JUndefined"
proof (cases raw)
  case (JArr entries)
  let ?s = "sort_key cid (stagedCaptions coerce entries)"
  obtain i where i: "i < length ?s" "e = (?s ! i)\<lparr>cid := int i + 1\<rparr>"
    using assms JArr by (auto simp add: in_set_conv_nth nth_reindexCaptions)
  have "?s ! i \<in> set ?s" using i(1) by (rule nth_mem)
  then have "?s ! i \<in> set (stagedCaptions coerce entries)" by simp
  then show ?thesis using staged_elements [of "?s ! i" coerce entries] i(2) by simp
qed (use assms in simp_all)

lemma normalizeCaptions_ids:
  "map cid (normalizeCaptions coerce raw) = [1..int (length (normalizeCaptions coerce raw))]"
  by (cases raw) (simp_all add: cid_reindexCaptions)

text \<open>The wizard's normalizer leaves a bank it has written unchanged.\<close>

lemma normalizeCaptions_idempotent:
  "normalizeCaptions coerce (wizardBankJson (normalizeCaptions coerce raw)) =
   normalizeCaptions coerce raw"
proof -
  let ?R = "normalizeCaptions coerce raw"
  have "stagedCaptions coerce (map wizardEntryJson ?R) = ?R"
    using staged_of_normalized [of ?R coerce 1 "[]"] normalizeCaptions_elements [of _ coerce raw]
    by (simp add: stagedCaptions_def)
  moreover have "sorted (map cid ?R)" by (simp only: normalizeCaptions_ids sorted_upto)
  moreover have "reindexCaptions ?R = ?R" using normalizeCaptions_ids by (rule reindexCaptions_id)
  ultimately show ?thesis by (simp add: wizardBankJson_def sort_key_id_if_sorted)
qed

text \<open>
  Claim C9 (the engine does not do what the claim says). \<^verbatim>\<open>normalizeCaptionEntries\<close>
  accepts a bank with a blank string entry and gives it the empty text; it rejects the
  bank it has just produced, because the same entry is now a record without text.
\<close>

theorem normalizeCaptionEntries_not_idempotent:
  "normalizeCaptionEntries (JArr [JStr ''Hello'', JStr ''   '']) =
     Inr [\<lparr>cid = JNum 1, ctext = ''Hello'', used = False, used_at = JNull\<rparr>,
          \<lparr>cid = JNum 2, ctext = [], used = False, used_at = JNull\<rparr>]
   \<and> normalizeCaptionEntries
       (bankJson [\<lparr>cid = JNum 1, ctext = ''Hello'', used = False, used_at = JNull\<rparr>,
                  \<lparr>cid = JNum 2, ctext = [], used = False, used_at = JNull\<rparr>]) =
     Inl (CaptionWithoutText 1)"
  by (simp add: bankJson_def entryJson_def textCandidate_def trim_def isWhiteSpace_def nullish_def)

text \<open>Apart from entries with the empty text, the engine's normalizer is idempotent too.\<close>

lemma normalizeCaptionEntry_entryJson:
  assumes "ctext e \<noteq> []" "trim (ctext e) = ctext e" "cid e \<noteq> JUndefined" "cid e \<noteq> JNull"
    "used_at e \<noteq> JUndefined"
  shows "normalizeCaptionEntry index (entryJson e) = Inr e"
  using assms by (simp add: entryJson_def textCandidate_def nullish_def Let_def)

lemma mapCaptionEntries_entryJson:
  assumes "\<forall>e \<in> set captions. ctext e \<noteq> [] \<and> trim (ctext e) = ctext e
             \<and> cid e \<noteq> JUndefined \<and> cid e \<noteq> JNull \<and> used_at e \<noteq> JUndefined"
  shows "mapCaptionEntries index (map entryJson captions) = Inr captions"
  using assms
proof (induction captions arbitrary: index)
  case Nil
  show ?case by simp
next
  case (Cons e rest)
  have "normalizeCaptionEntry index (entryJson e) = Inr e"
    using Cons.prems by (intro normalizeCaptionEntry_entryJson) simp_all
  then show ?case using Cons.IH [of "Suc index"] Cons.prems by simp
qed

lemma normalizeCaptionEntries_idempotent_nonblank:
  assumes "normalizeCaptionEntries raw = Inr captions" "\<forall>e \<in> set captions. ctext e \<noteq> []"
  shows "normalizeCaptionEntries (bankJson captions) = Inr captions"
proof (cases raw)
  case (JArr entries)
  then have m: "mapCaptionEntries 0 entries = Inr captions" using assms(1) by simp
  note facts = mapCaptionEntries_Inr [OF m]
  have "ctext e \<noteq> [] \<and> trim (ctext e) = ctext e
      \<and> cid e \<noteq> JUndefined \<and> cid e \<noteq> JNull \<and> used_at e \<noteq> JUndefined"
    if mem: "e \<in> set captions" for e
  proof -
    obtain i where i: "i < length captions" "captions ! i = e"
      using mem by (auto simp add: in_set_conv_nth)
    then have ie: "i < length entries" using facts by simp
    have "cid e = nullish (rawId (entries ! i)) (JNum (int (0 + i) + 1))"
      "ctext e = entryText (entries ! i)" "used_at e = entryUsedAt (entries ! i)"
      using facts ie i(2) by auto
    moreover have "ctext e \<noteq> []" using assms(2) mem by blast
    ultimately show ?thesis
      by (simp add: entryText_trimmed entryUsedAt_defined nullish_def)
  qed
  then show ?thesis by (simp add: bankJson_def mapCaptionEntries_entryJson)
qed (use assms in simp_all)

section \<open>Facts about hashtag normalization\<close>

lemma insertionOrder_snoc:
  "insertionOrder (xs @ [x]) =
     (if x \<in> set (insertionOrder xs) then insertionOrder xs else insertionOrder xs @ [x])"
  by (simp add: insertionOrder_def)

lemma set_insertionOrder [simp]: "set (insertionOrder xs) = set xs"
  by (induction xs rule: rev_induct) (auto simp add: insertionOrder_snoc insertionOrder_def)

lemma distinct_insertionOrder [simp]: "distinct (insertionOrder xs)"
  by (induction xs rule: rev_induct) (auto simp add: insertionOrder_snoc insertionOrder_def)


lemma normalizeHashtags_hash:
  assumes "normalizeHashtags raw = Inr tags" "tag \<in> set tags"
  shows "startsWithHash tag"
proof (cases raw)
  case (JArr entries)
  then obtain t where "tag = withHash t" using assms by (auto simp add: Let_def)
  then show ?thesis by (simp add: withHash_def startsWithHash_def)
qed (use assms in simp_all)

text \<open>
  Claim C4 (the engine does not do what the claim says). \<^verbatim>\<open>normalizeHashtags\<close> of
  run_job.mjs removes white space only from a tag that lacks the leading \<open>#\<close>, and its
  \<^verbatim>\<open>Set\<close> compares tags exactly: a tag written with \<open>#\<close> keeps its inner space, and two
  tags that differ only in case are both kept.
\<close>

theorem normalizeHashtags_not_canonical:
  "normalizeHashtags (JArr [JStr ''#summer vibes'', JStr ''#Sale'', JStr ''#sale'']) =
     Inr [''#summer vibes'', ''#Sale'', ''#sale'']
   \<and> isWhiteSpace (''#summer vibes'' ! 7)
   \<and> toLowerCase ''#Sale'' = toLowerCase ''#sale''"
proof -
  have "normalizeHashtags (JArr [JStr ''#summer vibes'', JStr ''#Sale'', JStr ''#sale'']) =
     Inr [''#summer vibes'', ''#Sale'', ''#sale'']"
    by (simp add: insertionOrder_def withHash_def startsWithHash_def trim_def isWhiteSpace_def)
  moreover have "isWhiteSpace (''#summer vibes'' ! 7)" by (simp add: isWhiteSpace_def)
  moreover have "toLowerCase ''#Sale'' = toLowerCase ''#sale''" by code_simp
  ultimately show ?thesis by (intro conjI)
qed

text \<open>The wizard's normalizer does what the claim says.\<close>

lemma normalizeHashtag_canonical:
  assumes "normalizeHashtag render rawTag \<noteq> []"
  shows "startsWithHash (normalizeHashtag render rawTag)
       \<and> (\<forall>c \<in> set (normalizeHashtag render rawTag). \<not> isWhiteSpace c)"
proof -
  have "\<not> isWhiteSpace CHR ''#''" by (simp add: isWhiteSpace_def)
  then show ?thesis
    using assms
    by (auto simp add: normalizeHashtag_def Let_def removeWhiteSpace_def startsWithHash_def
        split: if_splits list.splits)
qed

lemma hashtag_fold_invariant:
  "(case foldl (hashtagStep render) ([], []) entries of (seen, result) \<Rightarrow>
      seen = map toLowerCase result \<and> distinct seen
    \<and> (\<forall>tag \<in> set result. startsWithHash tag \<and> (\<forall>c \<in> set tag. \<not> isWhiteSpace c)))"
proof (induction entries rule: rev_induct)
  case Nil
  show ?case by simp
next
  case (snoc entry entries)
  obtain seen result where sr: "foldl (hashtagStep render) ([], []) entries = (seen, result)"
    by (cases "foldl (hashtagStep render) ([], []) entries")
  have IH: "seen = map toLowerCase result" "distinct seen"
    "\<forall>tag \<in> set result. startsWithHash tag \<and> (\<forall>c \<in> set tag. \<not> isWhiteSpace c)"
    using snoc.IH [unfolded sr prod.case] by blast+
  let ?n = "normalizeHashtag render (wizardCandidate entry)"
  show ?case
  proof (cases "?n = [] \<or> toLowerCase ?n \<in> set seen")
    case True
    then have "hashtagStep render (seen, result) entry = (seen, result)"
      by (auto simp add: hashtagStep_def Let_def)
    then show ?thesis using IH by (simp add: sr)
  next
    case False
    then have "hashtagStep render (seen, result) entry = (seen @ [toLowerCase ?n], result @ [?n])"
      by (auto simp add: hashtagStep_def Let_def)
    moreover have "startsWithHash ?n \<and> (\<forall>c \<in> set ?n. \<not> isWhiteSpace c)"
      using False normalizeHashtag_canonical [of render "wizardCandidate entry"] by blast
    ultimately show ?thesis using IH False by (auto simp add: sr)
  qed
qed

lemma normalizeHashtags_wizard_canonical:
  "distinct (map toLowerCase (normalizeHashtags_wizard render raw))
   \<and> (\<forall>tag \<in> set (normalizeHashtags_wizard render raw).
         startsWithHash tag \<and> (\<forall>c \<in> set tag. \<not> isWhiteSpace c))"
proof (cases raw)
  case (JArr entries)
  obtain seen result where sr: "foldl (hashtagStep render) ([], []) entries = (seen, result)"
    by (cases "foldl (hashtagStep render) ([], []) entries")
  then show ?thesis using hashtag_fold_invariant [of render entries] JArr by auto
qed simp_all

section \<open>\<^verbatim>\<open>pickHashtags\<close>\<close>


lemma pickHashtags_example:
  "pickHashtags (\<lambda>i. 1 / 2) [''#x'', ''#y'', ''#z''] = Inr [''#y'', ''#z'', ''#x'']"
  by (simp add: pickHashtags_def randomIntInclusive_def pickRandomItems_def randomIndex_def
      splice1_def Let_def numeral_3_eq_3)


section \<open>Facts about decimal numerals\<close>

lemma isDigit_digitChar: "d < 10 \<Longrightarrow> isDigit (digitChar d)"
  by (simp add: isDigit_def digitChar_def)

lemma value_digitChar: "d < 10 \<Longrightarrow> (of_char (digitChar d) :: nat) - 48 = d"
  by (simp add: digitChar_def)

lemma decimal_digits: "\<forall>c \<in> set (decimal n). isDigit c"
proof (induction n rule: decimal.induct)
  case (1 n)
  show ?case
  proof (cases "n < 10")
    case True
    then show ?thesis by (simp add: decimal.simps [of n] isDigit_digitChar)
  next
    case False
    then show ?thesis using 1 by (simp add: decimal.simps [of n] isDigit_digitChar)
  qed
qed

lemma decimal_nonempty: "decimal n \<noteq> []"
  by (simp add: decimal.simps [of n])

lemma digitsValue_snoc: "digitsValue (s @ [c]) = 10 * digitsValue s + ((of_char c :: nat) - 48)"
  by (simp add: digitsValue_def)

lemma digitsValue_decimal: "digitsValue (decimal n) = n"
proof (induction n rule: decimal.induct)
  case (1 n)
  show ?case
  proof (cases "n < 10")
    case True
    then show ?thesis by (simp add: decimal.simps [of n] digitsValue_def value_digitChar)
  next
    case False
    then have "digitsValue (decimal n) = 10 * (n div 10) + n mod 10"
      using 1 by (simp add: decimal.simps [of n] digitsValue_snoc value_digitChar)
    then show ?thesis by simp
  qed
qed

lemma decimal_inj: "decimal m = decimal n \<Longrightarrow> m = n"
  by (metis digitsValue_decimal)

lemma Number_str_decimal: "Number_str coerce (decimal n) = Some (int n)"
  by (simp add: Number_str_def decimal_nonempty decimal_digits digitsValue_decimal)

lemma isDigit_not_space: "isDigit c \<Longrightarrow> \<not> isWhiteSpace c \<and> c \<noteq> CHR 0x0A"
  by (auto simp add: isDigit_def isWhiteSpace_def)

lemma firstLineTrimmed_lockPayload: "firstLineTrimmed (lockPayload pid now) = decimal (nat pid)"
proof -
  let ?d = "decimal (nat pid)"
  have nl: "\<forall>c \<in> set ?d. c \<noteq> CHR 0x0A" using decimal_digits isDigit_not_space by blast
  have ws: "\<forall>c \<in> set ?d. \<not> isWhiteSpace c" using decimal_digits isDigit_not_space by blast
  have "takeWhile (\<lambda>c. c \<noteq> CHR 0x0A) (lockPayload pid now) = ?d"
    using nl by (simp add: lockPayload_def takeWhile_append2)
  moreover have "trim ?d = ?d"
  proof -
    have "?d \<noteq> []" by (rule decimal_nonempty)
    then have h: "\<not> isWhiteSpace (hd ?d)" "\<not> isWhiteSpace (last ?d)"
      using ws by simp_all
    then have "dropWhile isWhiteSpace ?d = ?d" by (simp add: dropWhile_no_lead)
    moreover have "dropWhile isWhiteSpace (rev ?d) = rev ?d"
      using h(2) \<open>?d \<noteq> []\<close> by (intro dropWhile_no_lead) (simp add: hd_rev)
    ultimately show ?thesis by (simp add: trim_def)
  qed
  ultimately show ?thesis by (simp add: firstLineTrimmed_def)
qed

section \<open>Facts about the lock\<close>

lemma readFile_logEvent [simp]: "readFile (logEvent e w) path = readFile w path"
  by (simp add: readFile_def logEvent_def split: option.splits)

lemma lockIsStale_logEvent [simp]:
  "lockIsStale coerce kill0 path (logEvent e w) = lockIsStale coerce kill0 path w"
  by (simp add: lockIsStale_def)

lemma lockIsStale_iff:
  "lockIsStale coerce kill0 path w =
     (case readFile w path of
        Inl e \<Rightarrow> True
      | Inr existing \<Rightarrow>
          (case Number_str coerce (firstLineTrimmed existing) of
             None \<Rightarrow> True
           | Some p \<Rightarrow> p \<le> 0 \<or> (kill0 p \<noteq> None \<and> kill0 p \<noteq> Some EPERM)))"
  by (auto simp add: lockIsStale_def isProcessAlive_def Let_def split: sum.splits option.splits)

lemma acquireLock_free:
  assumes "\<not> pathExists w path" "writeFault w path = None"
  shows "acquireLock coerce kill0 path pid now w =
         (Inr True, w\<lparr>files := (files w)(path \<mapsto> lockPayload pid now),
                        trace := trace w @ [Open path None]\<rparr>)"
  using assms by (simp add: acquireLock_def openWx_def logEvent_def)

lemma acquireLock_held:
  assumes "pathExists w path" "\<not> lockIsStale coerce kill0 path w"
  shows "acquireLock coerce kill0 path pid now w =
         (Inr False, w\<lparr>trace := trace w @ [Open path (Some EEXIST)]\<rparr>)"
  using assms by (simp add: acquireLock_def openWx_def) (simp add: logEvent_def)

lemma acquireLock_stale:
  assumes "pathExists w path" "path \<notin> dirs w" "lockIsStale coerce kill0 path w"
    "writeFault w path = None"
  shows "acquireLock coerce kill0 path pid now w =
         (Inr True, w\<lparr>files := (files w)(path \<mapsto> lockPayload pid now),
                        trace := trace w @ [Open path (Some EEXIST), Rm path None, Open path None]\<rparr>)"
  using assms
  by (simp add: acquireLock_def openWx_def rmForce_def)
     (simp add: logEvent_def pathExists_def)

lemma acquired_not_stale:
  assumes "readFault w path = None" "0 < pid" "kill0 pid = None \<or> kill0 pid = Some EPERM"
    "files w path = Some (lockPayload pid now)"
  shows "\<not> lockIsStale coerce kill0 path w"
  using assms
  by (auto simp add: lockIsStale_iff readFile_def firstLineTrimmed_lockPayload Number_str_decimal)

text \<open>
  Claim C6. \<^verbatim>\<open>acquireLock\<close> first tries the exclusive creation of a fresh record. When
  no record exists it succeeds with that one call. When a record exists and its holder is
  alive, it fails and changes nothing. The holder is taken as alive exactly when the record
  can be read, its first line is a positive integer and \<^verbatim>\<open>process.kill(pid, 0)\<close> either
  succeeds or fails with \<open>EPERM\<close>; in every other case (a record that cannot be read, a
  first line that is no process id, a process that does not exist) the record is stale,
  is removed, and the creation is tried once more, which gives the lock. A second call
  while the holder of the first is alive fails.
\<close>

theorem acquireLock_protocol:
  "(\<not> pathExists w path \<and> writeFault w path = None \<longrightarrow>
      acquireLock coerce kill0 path pid now w =
        (Inr True, w\<lparr>files := (files w)(path \<mapsto> lockPayload pid now),
                       trace := trace w @ [Open path None]\<rparr>))
   \<and> (pathExists w path \<and> \<not> lockIsStale coerce kill0 path w \<longrightarrow>
      acquireLock coerce kill0 path pid now w =
        (Inr False, w\<lparr>trace := trace w @ [Open path (Some EEXIST)]\<rparr>))
   \<and> (pathExists w path \<and> path \<notin> dirs w \<and> lockIsStale coerce kill0 path w
        \<and> writeFault w path = None \<longrightarrow>
      acquireLock coerce kill0 path pid now w =
        (Inr True, w\<lparr>files := (files w)(path \<mapsto> lockPayload pid now),
                       trace := trace w @ [Open path (Some EEXIST), Rm path None, Open path None]\<rparr>))
   \<and> lockIsStale coerce kill0 path w =
        (case readFile w path of
           Inl e \<Rightarrow> True
         | Inr existing \<Rightarrow>
             (case Number_str coerce (firstLineTrimmed existing) of
                None \<Rightarrow> True
              | Some p \<Rightarrow> p \<le> 0 \<or> (kill0 p \<noteq> None \<and> kill0 p \<noteq> Some EPERM)))
   \<and> (\<not> pathExists w path \<and> writeFault w path = None \<and> readFault w path = None \<and> 0 < pid
        \<and> (kill0 pid = None \<or> kill0 pid = Some EPERM) \<longrightarrow>
      fst (acquireLock coerce kill0 path pid now w) = Inr True
      \<and> acquireLock coerce kill0 path pid2 now2 (snd (acquireLock coerce kill0 path pid now w)) =
          (Inr False, (snd (acquireLock coerce kill0 path pid now w))
             \<lparr>trace := trace w @ [Open path None, Open path (Some EEXIST)]\<rparr>))"
proof (intro conjI impI)
  assume "\<not> pathExists w path \<and> writeFault w path = None"
  then show "acquireLock coerce kill0 path pid now w =
        (Inr True, w\<lparr>files := (files w)(path \<mapsto> lockPayload pid now),
                       trace := trace w @ [Open path None]\<rparr>)"
    by (simp add: acquireLock_free)
next
  assume "pathExists w path \<and> \<not> lockIsStale coerce kill0 path w"
  then show "acquireLock coerce kill0 path pid now w =
        (Inr False, w\<lparr>trace := trace w @ [Open path (Some EEXIST)]\<rparr>)"
    by (simp add: acquireLock_held)
next
  assume "pathExists w path \<and> path \<notin> dirs w \<and> lockIsStale coerce kill0 path w
        \<and> writeFault w path = None"
  then show "acquireLock coerce kill0 path pid now w =
        (Inr True, w\<lparr>files := (files w)(path \<mapsto> lockPayload pid now),
                       trace := trace w @ [Open path (Some EEXIST), Rm path None, Open path None]\<rparr>)"
    by (simp add: acquireLock_stale)
next
  show "lockIsStale coerce kill0 path w =
        (case readFile w path of
           Inl e \<Rightarrow> True
         | Inr existing \<Rightarrow>
             (case Number_str coerce (firstLineTrimmed existing) of
                None \<Rightarrow> True
              | Some p \<Rightarrow> p \<le> 0 \<or> (kill0 p \<noteq> None \<and> kill0 p \<noteq> Some EPERM)))"
    by (rule lockIsStale_iff)
next
  assume a: "\<not> pathExists w path \<and> writeFault w path = None \<and> readFault w path = None \<and> 0 < pid
        \<and> (kill0 pid = None \<or> kill0 pid = Some EPERM)"
  then show "fst (acquireLock coerce kill0 path pid now w) = Inr True"
    by (simp add: acquireLock_free)
next
  assume a: "\<not> pathExists w path \<and> writeFault w path = None \<and> readFault w path = None \<and> 0 < pid
        \<and> (kill0 pid = None \<or> kill0 pid = Some EPERM)"
  let ?w1 = "w\<lparr>files := (files w)(path \<mapsto> lockPayload pid now),
                trace := trace w @ [Open path None]\<rparr>"
  have first: "acquireLock coerce kill0 path pid now w = (Inr True, ?w1)"
    using a by (simp add: acquireLock_free)
  have ex: "pathExists ?w1 path" by (simp add: pathExists_def)
  have "\<not> lockIsStale coerce kill0 path ?w1"
    using a by (intro acquired_not_stale [where pid = pid and now = now]) simp_all
  then have "acquireLock coerce kill0 path pid2 now2 ?w1 =
      (Inr False, ?w1\<lparr>trace := trace ?w1 @ [Open path (Some EEXIST)]\<rparr>)"
    using ex by (rule acquireLock_held [rotated])
  then show "acquireLock coerce kill0 path pid2 now2 (snd (acquireLock coerce kill0 path pid now w)) =
          (Inr False, (snd (acquireLock coerce kill0 path pid now w))
             \<lparr>trace := trace w @ [Open path None, Open path (Some EEXIST)]\<rparr>)"
    by (simp add: first)
qed

theorem acquireLock_protocol_witness:
  "\<not> pathExists emptyWorld ''/data/.run.lock''
   \<and> writeFault emptyWorld ''/data/.run.lock'' = None
   \<and> readFault emptyWorld ''/data/.run.lock'' = None
   \<and> (0::int) < 4242
   \<and> fst (acquireLock (\<lambda>v. None) (\<lambda>p. None) ''/data/.run.lock'' 4242 ''2026-02-22T14:00:00.000Z''
            emptyWorld) = Inr True
   \<and> fst (acquireLock (\<lambda>v. None) (\<lambda>p. None) ''/data/.run.lock'' 4243 ''2026-02-22T15:00:00.000Z''
            (snd (acquireLock (\<lambda>v. None) (\<lambda>p. None) ''/data/.run.lock'' 4242
                    ''2026-02-22T14:00:00.000Z'' emptyWorld))) = Inr False"
proof -
  have h: "\<not> pathExists emptyWorld ''/data/.run.lock''"
    "writeFault emptyWorld ''/data/.run.lock'' = None"
    "readFault emptyWorld ''/data/.run.lock'' = None"
    by (simp_all add: emptyWorld_def pathExists_def)
  have p: "(0::int) < 4242" by simp
  note t = acquireLock_protocol [of emptyWorld "''/data/.run.lock''" "\<lambda>v. None" "\<lambda>p. None" 4242
      "''2026-02-22T14:00:00.000Z''" 4243 "''2026-02-22T15:00:00.000Z''"]
  have k: "(\<lambda>p::int. None :: errno option) 4242 = None \<or>
           (\<lambda>p::int. None :: errno option) 4242 = Some EPERM" by simp
  note last = t [THEN conjunct2, THEN conjunct2, THEN conjunct2, THEN conjunct2, THEN mp,
      OF conjI [OF h(1) conjI [OF h(2) conjI [OF h(3) conjI [OF p k]]]]]
  have "fst (acquireLock (\<lambda>v. None) (\<lambda>p. None) ''/data/.run.lock'' 4242 ''2026-02-22T14:00:00.000Z''
            emptyWorld) = Inr True"
    using last by (rule conjunct1)
  moreover have "fst (acquireLock (\<lambda>v. None) (\<lambda>p. None) ''/data/.run.lock'' 4243 ''2026-02-22T15:00:00.000Z''
            (snd (acquireLock (\<lambda>v. None) (\<lambda>p. None) ''/data/.run.lock'' 4242
                    ''2026-02-22T14:00:00.000Z'' emptyWorld))) = Inr False"
    using last [THEN conjunct2] by (simp only: fst_conv)
  ultimately show ?thesis using h p by (intro conjI)
qed

section \<open>Facts about the packager\<close>

lemma parsedName_extname: "parsedName base @ extname base = base"
proof -
  have "extname base = [] \<or> (\<exists>k. extname base = drop k base)"
    by (auto simp add: extname_def Let_def)
  then show ?thesis
  proof
    assume "extname base = []"
    then show ?thesis by (simp add: parsedName_def)
  next
    assume "\<exists>k. extname base = drop k base"
    then obtain k where k: "extname base = drop k base" by blast
    have "take (length base - length (drop k base)) base @ drop k base = base"
      by (cases "k \<le> length base") simp_all
    then show ?thesis by (simp add: parsedName_def k)
  qed
qed

lemma ext_examples:
  "extname ''a.jpg'' = ''.jpg''" "parsedName ''a.jpg'' = ''a''"
  "extname ''.bashrc'' = []" "extname ''a.b.mp4'' = ''.mp4''" "extname ''..'' = []"
  "parsedName ''a.b.mp4'' = ''a.b''" "basename ''/r/source_media/images/x/a.jpg'' = ''a.jpg''"
  by (simp_all add: extname_def parsedName_def basename_def Let_def)

lemma fileSuffix_inj: "fileSuffix j = fileSuffix k \<Longrightarrow> j = k"
  by (auto simp add: fileSuffix_def decimal_inj split: if_splits)

lemma candidatePath_inj:
  "candidatePath targetDir name ext j = candidatePath targetDir name ext k \<Longrightarrow> j = k"
  by (simp add: candidatePath_def pathJoin_def fileSuffix_inj)

lemma candidatePath_0: "candidatePath targetDir (parsedName base) (extname base) 0 = pathJoin targetDir base"
  by (simp add: candidatePath_def fileSuffix_def parsedName_extname)

lemma finite_existing: "finiteWorld w \<Longrightarrow> finite {p. pathExists w p}"
proof -
  assume "finiteWorld w"
  then have "finite (dom (files w) \<union> dirs w)" by (simp add: finiteWorld_def)
  moreover have "{p. pathExists w p} = dom (files w) \<union> dirs w"
    by (auto simp add: pathExists_def)
  ultimately show ?thesis by simp
qed

lemma some_candidate_free:
  assumes "finiteWorld w"
  shows "\<exists>k. \<not> pathExists w (candidatePath targetDir name ext k)"
proof (rule ccontr)
  assume "\<not> (\<exists>k. \<not> pathExists w (candidatePath targetDir name ext k))"
  then have "range (candidatePath targetDir name ext) \<subseteq> {p. pathExists w p}" by auto
  then have "finite (range (candidatePath targetDir name ext))"
    using finite_existing [OF assms] by (rule finite_subset)
  moreover have "inj (candidatePath targetDir name ext)"
    by (rule injI) (rule candidatePath_inj)
  ultimately have "finite (UNIV :: nat set)" by (rule finite_imageD)
  then show False by simp
qed

lemma uniqueFilePathLoop_finds:
  assumes "\<not> pathExists w (candidatePath targetDir name ext k)"
    and "\<forall>j. attempt \<le> j \<and> j < k \<longrightarrow> pathExists w (candidatePath targetDir name ext j)"
    and "attempt \<le> k"
  shows "uniqueFilePathLoop w targetDir name ext attempt = Some (candidatePath targetDir name ext k)"
  using assms
proof (induction "k - attempt" arbitrary: attempt)
  case 0
  then have "attempt = k" by simp
  then show ?case using "0.prems"(1) by (subst uniqueFilePathLoop.simps) simp
next
  case (Suc d)
  then have lt: "attempt < k" by simp
  then have ex: "pathExists w (candidatePath targetDir name ext attempt)"
    using Suc.prems(2) by simp
  have "uniqueFilePathLoop w targetDir name ext (attempt + 1) =
        Some (candidatePath targetDir name ext k)"
    using Suc.hyps(2) Suc.prems lt by (intro Suc.hyps(1)) simp_all
  then show ?case using ex by (subst uniqueFilePathLoop.simps) simp
qed

lemma uniqueFilePath_result:
  assumes "finiteWorld w"
  shows "\<exists>k. uniqueFilePath w targetDir base =
               Some (candidatePath targetDir (parsedName base) (extname base) k)
           \<and> \<not> pathExists w (candidatePath targetDir (parsedName base) (extname base) k)
           \<and> (\<forall>j < k. pathExists w (candidatePath targetDir (parsedName base) (extname base) j))"
proof -
  let ?c = "candidatePath targetDir (parsedName base) (extname base)"
  obtain k0 where "\<not> pathExists w (?c k0)" using some_candidate_free [OF assms] by blast
  then obtain k where k: "\<not> pathExists w (?c k)" "\<forall>j < k. pathExists w (?c j)"
    using exists_least_iff [of "\<lambda>k. \<not> pathExists w (?c k)"] by blast
  then have "uniqueFilePathLoop w targetDir (parsedName base) (extname base) 0 = Some (?c k)"
    by (intro uniqueFilePathLoop_finds) simp_all
  then show ?thesis using k by (auto simp add: uniqueFilePath_def)
qed


lemma moveFileSafe_frame:
  assumes "moveFileSafe xdev source destination w = (r, w')"
  shows "(\<forall>p. p \<noteq> source \<and> p \<noteq> destination \<longrightarrow> files w' p = files w p)
       \<and> dirs w' = dirs w \<and> readFault w' = readFault w \<and> writeFault w' = writeFault w
       \<and> dom (files w') \<subseteq> insert destination (dom (files w))"
  using assms
  by (auto simp add: moveFileSafe_def rename_def copyFileExcl_def unlink_def logEvent_def
      split: option.splits if_splits prod.splits)

lemma moveFileSafe_finite:
  assumes "moveFileSafe xdev source destination w = (r, w')" "finiteWorld w"
  shows "finiteWorld w'"
proof -
  have sub: "dom (files w') \<subseteq> insert destination (dom (files w))" and d: "dirs w' = dirs w"
    using moveFileSafe_frame [OF assms(1)] by simp_all
  have fin: "finite (insert destination (dom (files w)))" "finite (dirs w)"
    using assms(2) by (simp_all add: finiteWorld_def)
  have "finite (dom (files w'))" using sub fin(1) by (rule finite_subset)
  then show ?thesis using d fin(2) by (simp add: finiteWorld_def)
qed

lemma moveFileSafe_keeps:
  assumes "moveFileSafe xdev source destination w = (r, w')" "\<not> pathExists w destination"
    "files w p = Some c" "p \<noteq> source"
  shows "files w' p = Some c"
proof -
  have "p \<noteq> destination" using assms(2,3) by (auto simp add: pathExists_def)
  then show ?thesis using moveFileSafe_frame [OF assms(1)] assms(3,4) by simp
qed

lemma moveSelectedMedia_keeps:
  assumes "finiteWorld w"
  shows "\<exists>r w'. moveSelectedMedia xdev jobDir sources w = Some (r, w')
           \<and> (\<forall>p c. files w p = Some c \<and> p \<notin> set sources \<longrightarrow> files w' p = Some c)"
  using assms
proof (induction sources arbitrary: w)
  case Nil
  show ?case by simp
next
  case (Cons sourcePath rest)
  obtain k where k:
    "uniqueFilePath w jobDir (basename sourcePath) =
       Some (candidatePath jobDir (parsedName (basename sourcePath)) (extname (basename sourcePath)) k)"
    "\<not> pathExists w
        (candidatePath jobDir (parsedName (basename sourcePath)) (extname (basename sourcePath)) k)"
    using uniqueFilePath_result [OF Cons.prems] by blast
  let ?dest = "candidatePath jobDir (parsedName (basename sourcePath)) (extname (basename sourcePath)) k"
  obtain r1 w1 where m: "moveFileSafe xdev sourcePath ?dest w = (r1, w1)"
    by (cases "moveFileSafe xdev sourcePath ?dest w")
  have keep1: "files w1 p = Some c" if "files w p = Some c" "p \<noteq> sourcePath" for p c
    using moveFileSafe_keeps [OF m k(2) that] .
  show ?case
  proof (cases r1)
    case (Inl e)
    then have "moveSelectedMedia xdev jobDir (sourcePath # rest) w = Some (Inl e, w1)"
      by (simp add: k(1) m)
    then show ?thesis using keep1 by auto
  next
    case (Inr u)
    obtain r w' where rest: "moveSelectedMedia xdev jobDir rest w1 = Some (r, w')"
      "\<forall>p c. files w1 p = Some c \<and> p \<notin> set rest \<longrightarrow> files w' p = Some c"
      using Cons.IH [OF moveFileSafe_finite [OF m Cons.prems]] by blast
    have "moveSelectedMedia xdev jobDir (sourcePath # rest) w = Some (r, w')"
      by (simp add: k(1) m Inr rest(1))
    then show ?thesis using keep1 rest(2) by auto
  qed
qed

lemma moveFileSafe_xdev_existing:
  assumes "files w source = Some content" "xdev source destination" "pathExists w destination"
  shows "fst (moveFileSafe xdev source destination w) = Inl (SysError EEXIST)
       \<and> files (snd (moveFileSafe xdev source destination w)) = files w"
  using assms
  by (simp add: moveFileSafe_def rename_def copyFileExcl_def logEvent_def pathExists_def)

lemma moveFileSafe_moves:
  assumes "files w source = Some content" "\<not> pathExists w destination"
    "writeFault w destination = None"
  shows "fst (moveFileSafe xdev source destination w) = Inr ()
       \<and> files (snd (moveFileSafe xdev source destination w)) =
           (files w)(source := None, destination \<mapsto> content)
       \<and> trace (snd (moveFileSafe xdev source destination w)) =
           trace w @ (if xdev source destination
                      then [Rename source destination (Some EXDEV),
                            CopyFile source destination None, Unlink source None]
                      else [Rename source destination None])"
proof -
  have ne: "source \<noteq> destination" using assms(1,2) by (auto simp add: pathExists_def)
  have nd: "destination \<notin> dirs w" "files w destination = None"
    using assms(2) by (auto simp add: pathExists_def)
  show ?thesis
  proof (cases "xdev source destination")
    case True
    have "(files w)(destination \<mapsto> content, source := None) =
          (files w)(source := None, destination \<mapsto> content)"
      using ne by (simp add: fun_upd_twist)
    then show ?thesis
      using True assms nd ne
      by (simp add: moveFileSafe_def rename_def copyFileExcl_def unlink_def logEvent_def
          pathExists_def)
  next
    case False
    then show ?thesis
      using assms nd
      by (simp add: moveFileSafe_def rename_def logEvent_def)
  qed
qed

lemma moveFileSafe_outcome:
  assumes "files w s = Some c" "\<not> pathExists w d" "moveFileSafe xdev s d w = (r, w1)"
  shows "dirs w1 = dirs w \<and> writeFault w1 = writeFault w
       \<and> ((r = Inr () \<and> files w1 = (files w)(s := None, d \<mapsto> c)
            \<and> \<not> (xdev s d \<and> writeFault w d \<noteq> None))
          \<or> (\<exists>e. r = Inl (SysError e) \<and> xdev s d \<and> writeFault w d = Some e \<and> files w1 = files w))"
proof -
  have ne: "s \<noteq> d" using assms(1,2) by (auto simp add: pathExists_def)
  have nd: "d \<notin> dirs w" "files w d = None" using assms(2) by (auto simp add: pathExists_def)
  have tw: "(files w)(d \<mapsto> c, s := None) = (files w)(s := None, d \<mapsto> c)"
    using ne by (simp add: fun_upd_twist)
  show ?thesis
  proof (cases "xdev s d")
    case False
    then show ?thesis using assms nd by (auto simp add: moveFileSafe_def rename_def logEvent_def)
  next
    case True
    show ?thesis
    proof (cases "writeFault w d")
      case None
      then show ?thesis
        using True assms nd ne tw
        by (auto simp add: moveFileSafe_def rename_def copyFileExcl_def unlink_def logEvent_def
            pathExists_def)
    next
      case (Some e)
      then show ?thesis
        using True assms nd
        by (auto simp add: moveFileSafe_def rename_def copyFileExcl_def logEvent_def pathExists_def)
    qed
  qed
qed

lemma occupied_step:
  assumes "files w1 = (files w)(s := None, d \<mapsto> c)" "dirs w1 = dirs w" "s \<noteq> d" "d \<notin> set moved"
  shows "occupied w1 moved placed p = occupied w (s # moved) (d # placed) p"
  using assms by (auto simp add: occupied_def)

lemma occupied_start: "occupied w [] [] p = pathExists w p"
  by (auto simp add: occupied_def pathExists_def)

lemma candidate_base:
  "k = 0 \<longleftrightarrow>
   candidatePath jobDir (parsedName base) (extname base) k = pathJoin jobDir base"
  using candidatePath_inj [of jobDir "parsedName base" "extname base" k 0]
  by (auto simp add: candidatePath_0)

lemma moveSelectedMedia_places:
  assumes "finiteWorld w" "distinct sources" "\<forall>s \<in> set sources. files w s \<noteq> None"
  shows "\<exists>n dests r w'. moveSelectedMedia xdev jobDir sources w = Some (r, w')
     \<and> n \<le> length sources \<and> length dests = n \<and> distinct dests
     \<and> (r = Inr () \<longleftrightarrow> n = length sources)
     \<and> (\<forall>i < n. \<exists>k.
           dests ! i = candidatePath jobDir (parsedName (basename (sources ! i)))
                         (extname (basename (sources ! i))) k
         \<and> (k = 0 \<longleftrightarrow> dests ! i = pathJoin jobDir (basename (sources ! i)))
         \<and> \<not> occupied w (take i sources) (take i dests) (dests ! i)
         \<and> (\<forall>j < k. occupied w (take i sources) (take i dests)
                        (candidatePath jobDir (parsedName (basename (sources ! i)))
                           (extname (basename (sources ! i))) j))
         \<and> files w' (dests ! i) = files w (sources ! i)
         \<and> (sources ! i \<notin> set dests \<longrightarrow> files w' (sources ! i) = None))
     \<and> (\<forall>p. p \<notin> set (take n sources) \<and> p \<notin> set dests \<longrightarrow> files w' p = files w p)
     \<and> (n < length sources \<longrightarrow>
          (\<exists>d e. xdev (sources ! n) d \<and> writeFault w d = Some e \<and> r = Inl (SysError e)))
     \<and> dirs w' = dirs w \<and> writeFault w' = writeFault w"
  using assms
proof (induction sources arbitrary: w)
  case Nil
  have "moveSelectedMedia xdev jobDir [] w = Some (Inr (), w)
     \<and> (0::nat) \<le> length ([] :: string list) \<and> length ([] :: string list) = 0
     \<and> distinct ([] :: string list)
     \<and> ((Inr () :: error + unit) = Inr () \<longleftrightarrow> (0::nat) = length ([] :: string list))"
    by simp
  then show ?case
    by (intro exI [of _ 0] exI [of _ "[]"] exI [of _ "Inr ()"] exI [of _ w]) simp
next
  case (Cons s rest)
  let ?cand = "\<lambda>x. candidatePath jobDir (parsedName (basename x)) (extname (basename x))"
  obtain c where c: "files w s = Some c" using Cons.prems(3) by auto
  obtain k where k: "uniqueFilePath w jobDir (basename s) = Some (?cand s k)"
    "\<not> pathExists w (?cand s k)" "\<forall>j < k. pathExists w (?cand s j)"
    using uniqueFilePath_result [OF Cons.prems(1)] by blast
  define d where "d = ?cand s k"
  have dk: "uniqueFilePath w jobDir (basename s) = Some d" "\<not> pathExists w d"
    using k by (simp_all add: d_def)
  obtain r1 w1 where m: "moveFileSafe xdev s d w = (r1, w1)"
    by (cases "moveFileSafe xdev s d w")
  note out = moveFileSafe_outcome [OF c dk(2) m]
  have dw: "dirs w1 = dirs w" "writeFault w1 = writeFault w" using out by simp_all
  have sd: "s \<noteq> d" using c dk(2) by (auto simp add: pathExists_def)
  have dfree: "files w d = None" "d \<notin> dirs w" using dk(2) by (auto simp add: pathExists_def)
  have drest: "d \<notin> set rest" using Cons.prems(3) dfree(1) by auto
  have srest: "s \<notin> set rest" using Cons.prems(2) by simp
  consider (fail) e where "r1 = Inl (SysError e)" "xdev s d" "writeFault w d = Some e"
      "files w1 = files w"
    | (ok) "r1 = Inr ()" "files w1 = (files w)(s := None, d \<mapsto> c)"
    using out by blast
  then show ?case
  proof cases
    case fail
    have res: "moveSelectedMedia xdev jobDir (s # rest) w = Some (Inl (SysError e), w1)"
      using dk(1) m fail(1) by simp
    have cause: "\<exists>d' e'. xdev ((s # rest) ! 0) d' \<and> writeFault w d' = Some e'
        \<and> (Inl (SysError e) :: error + unit) = Inl (SysError e')"
      using fail(2,3) by auto
    show ?thesis
      apply (rule exI [of _ 0], rule exI [of _ "[]"], rule exI [of _ "Inl (SysError e)"],
          rule exI [of _ w1])
      using res cause fail(4) dw by simp
  next
    case ok
    have fin1: "finiteWorld w1" using moveFileSafe_finite [OF m Cons.prems(1)] .
    have dist: "distinct rest" using Cons.prems(2) by simp
    have same: "files w1 x = files w x" if "x \<in> set rest" for x
      using that srest drest ok(2) by auto
    have ex1: "\<forall>x \<in> set rest. files w1 x \<noteq> None" using same Cons.prems(3) by simp
    obtain n dests r w' where IH:
      "moveSelectedMedia xdev jobDir rest w1 = Some (r, w')"
      "n \<le> length rest" "length dests = n" "distinct dests"
      "r = Inr () \<longleftrightarrow> n = length rest"
      "\<forall>i < n. \<exists>k. dests ! i = ?cand (rest ! i) k
         \<and> (k = 0 \<longleftrightarrow> dests ! i = pathJoin jobDir (basename (rest ! i)))
         \<and> \<not> occupied w1 (take i rest) (take i dests) (dests ! i)
         \<and> (\<forall>j < k. occupied w1 (take i rest) (take i dests) (?cand (rest ! i) j))
         \<and> files w' (dests ! i) = files w1 (rest ! i)
         \<and> (rest ! i \<notin> set dests \<longrightarrow> files w' (rest ! i) = None)"
      "\<forall>p. p \<notin> set (take n rest) \<and> p \<notin> set dests \<longrightarrow> files w' p = files w1 p"
      "n < length rest \<longrightarrow>
          (\<exists>d e. xdev (rest ! n) d \<and> writeFault w1 d = Some e \<and> r = Inl (SysError e))"
      "dirs w' = dirs w1" "writeFault w' = writeFault w1"
      using Cons.IH [OF fin1 dist ex1] by blast
    have step: "occupied w1 moved placed p = occupied w (s # moved) (d # placed) p"
      if "set moved \<subseteq> set rest" for moved placed p
    proof -
      have "d \<notin> set moved" using that drest by auto
      then show ?thesis using occupied_step [OF ok(2) dw(1) sd] by blast
    qed
    have res: "moveSelectedMedia xdev jobDir (s # rest) w = Some (r, w')"
      using dk(1) m ok(1) IH(1) by simp
    have dnew: "d \<notin> set dests"
    proof
      assume "d \<in> set dests"
      then obtain i where i: "i < n" "dests ! i = d"
        using IH(3) by (auto simp add: in_set_conv_nth)
      have "\<not> occupied w1 (take i rest) (take i dests) d" using IH(6) i by auto
      moreover have "files w1 d \<noteq> None" using ok(2) by simp
      moreover have "d \<notin> set (take i rest)" using drest by (auto dest: in_set_takeD)
      ultimately show False by (simp add: occupied_def)
    qed
    have d_end: "files w' d = Some c"
    proof -
      have "d \<notin> set (take n rest)" using drest by (auto dest: in_set_takeD)
      then have "files w' d = files w1 d" using IH(7) dnew by simp
      then show ?thesis using ok(2) by simp
    qed
    have s_end: "files w' s = None" if "s \<notin> set dests"
    proof -
      have "s \<notin> set (take n rest)" using srest by (auto dest: in_set_takeD)
      then have "files w' s = files w1 s" using IH(7) that by simp
      then show ?thesis using ok(2) sd by simp
    qed
    have each: "\<exists>k. (d # dests) ! i = ?cand ((s # rest) ! i) k
         \<and> (k = 0 \<longleftrightarrow> (d # dests) ! i = pathJoin jobDir (basename ((s # rest) ! i)))
         \<and> \<not> occupied w (take i (s # rest)) (take i (d # dests)) ((d # dests) ! i)
         \<and> (\<forall>j < k. occupied w (take i (s # rest)) (take i (d # dests)) (?cand ((s # rest) ! i) j))
         \<and> files w' ((d # dests) ! i) = files w ((s # rest) ! i)
         \<and> ((s # rest) ! i \<notin> set (d # dests) \<longrightarrow> files w' ((s # rest) ! i) = None)"
      if "i < Suc n" for i
    proof (cases i)
      case 0
      have "(d # dests) ! 0 = ?cand ((s # rest) ! 0) k" by (simp add: d_def)
      moreover have "k = 0 \<longleftrightarrow> (d # dests) ! 0 = pathJoin jobDir (basename ((s # rest) ! 0))"
        using candidate_base [where jobDir = jobDir and base = "basename s" and k = k]
        by (simp add: d_def)
      moreover have "\<not> occupied w (take 0 (s # rest)) (take 0 (d # dests)) ((d # dests) ! 0)"
        using dk(2) by (simp add: occupied_start)
      moreover have "\<forall>j < k. occupied w (take 0 (s # rest)) (take 0 (d # dests))
                        (?cand ((s # rest) ! 0) j)"
        using k(3) by (simp add: occupied_start)
      moreover have "files w' ((d # dests) ! 0) = files w ((s # rest) ! 0)"
        using d_end c by simp
      moreover have "(s # rest) ! 0 \<notin> set (d # dests) \<longrightarrow> files w' ((s # rest) ! 0) = None"
        using s_end by simp
      ultimately show ?thesis unfolding 0 by (intro exI [of _ k] conjI)
    next
      case (Suc i')
      then have i': "i' < n" using that by simp
      then have mem: "rest ! i' \<in> set rest" using IH(2) by simp
      obtain k' where k': "dests ! i' = ?cand (rest ! i') k'"
        "\<not> occupied w1 (take i' rest) (take i' dests) (dests ! i')"
        "\<forall>j < k'. occupied w1 (take i' rest) (take i' dests) (?cand (rest ! i') j)"
        "files w' (dests ! i') = files w1 (rest ! i')"
        "rest ! i' \<notin> set dests \<longrightarrow> files w' (rest ! i') = None"
        "k' = 0 \<longleftrightarrow> dests ! i' = pathJoin jobDir (basename (rest ! i'))"
        using IH(6) i' by blast
      have sub: "set (take i' rest) \<subseteq> set rest" by (rule set_take_subset)
      have "(d # dests) ! Suc i' = ?cand ((s # rest) ! Suc i') k'" using k'(1) by simp
      moreover have "k' = 0 \<longleftrightarrow> (d # dests) ! Suc i' = pathJoin jobDir (basename ((s # rest) ! Suc i'))"
        using k'(6) by simp
      moreover have "\<not> occupied w (take (Suc i') (s # rest)) (take (Suc i') (d # dests))
                        ((d # dests) ! Suc i')"
        using k'(2) step [OF sub] by simp
      moreover have "\<forall>j < k'. occupied w (take (Suc i') (s # rest)) (take (Suc i') (d # dests))
                        (?cand ((s # rest) ! Suc i') j)"
        using k'(3) step [OF sub] by simp
      moreover have "files w' ((d # dests) ! Suc i') = files w ((s # rest) ! Suc i')"
        using k'(4) same [OF mem] by simp
      moreover have "(s # rest) ! Suc i' \<notin> set (d # dests) \<longrightarrow>
                        files w' ((s # rest) ! Suc i') = None"
        using k'(5) by simp
      ultimately show ?thesis unfolding Suc by (intro exI [of _ k'] conjI)
    qed
    have frame: "\<forall>p. p \<notin> set (take (Suc n) (s # rest)) \<and> p \<notin> set (d # dests) \<longrightarrow>
                   files w' p = files w p"
    proof (intro allI impI)
      fix p assume p: "p \<notin> set (take (Suc n) (s # rest)) \<and> p \<notin> set (d # dests)"
      then have "p \<noteq> s" "p \<noteq> d" "p \<notin> set (take n rest)" "p \<notin> set dests" by simp_all
      then show "files w' p = files w p" using IH(7) ok(2) by simp
    qed
    have cause: "Suc n < length (s # rest) \<longrightarrow>
          (\<exists>d e. xdev ((s # rest) ! Suc n) d \<and> writeFault w d = Some e \<and> r = Inl (SysError e))"
      using IH(8) dw(2) by simp
    have "moveSelectedMedia xdev jobDir (s # rest) w = Some (r, w')
      \<and> Suc n \<le> length (s # rest) \<and> length (d # dests) = Suc n \<and> distinct (d # dests)
      \<and> (r = Inr () \<longleftrightarrow> Suc n = length (s # rest))
      \<and> (\<forall>i < Suc n. \<exists>k. (d # dests) ! i = ?cand ((s # rest) ! i) k
         \<and> (k = 0 \<longleftrightarrow> (d # dests) ! i = pathJoin jobDir (basename ((s # rest) ! i)))
         \<and> \<not> occupied w (take i (s # rest)) (take i (d # dests)) ((d # dests) ! i)
         \<and> (\<forall>j < k. occupied w (take i (s # rest)) (take i (d # dests)) (?cand ((s # rest) ! i) j))
         \<and> files w' ((d # dests) ! i) = files w ((s # rest) ! i)
         \<and> ((s # rest) ! i \<notin> set (d # dests) \<longrightarrow> files w' ((s # rest) ! i) = None))
      \<and> (\<forall>p. p \<notin> set (take (Suc n) (s # rest)) \<and> p \<notin> set (d # dests) \<longrightarrow>
             files w' p = files w p)
      \<and> (Suc n < length (s # rest) \<longrightarrow>
          (\<exists>d e. xdev ((s # rest) ! Suc n) d \<and> writeFault w d = Some e \<and> r = Inl (SysError e)))
      \<and> dirs w' = dirs w \<and> writeFault w' = writeFault w"
    proof (intro conjI)
      show "moveSelectedMedia xdev jobDir (s # rest) w = Some (r, w')" by (rule res)
      show "Suc n \<le> length (s # rest)" using IH(2) by simp
      show "length (d # dests) = Suc n" using IH(3) by simp
      show "distinct (d # dests)" using IH(4) dnew by simp
      show "r = Inr () \<longleftrightarrow> Suc n = length (s # rest)" using IH(5) by simp
      show "\<forall>i < Suc n. \<exists>k. (d # dests) ! i = ?cand ((s # rest) ! i) k
         \<and> (k = 0 \<longleftrightarrow> (d # dests) ! i = pathJoin jobDir (basename ((s # rest) ! i)))
         \<and> \<not> occupied w (take i (s # rest)) (take i (d # dests)) ((d # dests) ! i)
         \<and> (\<forall>j < k. occupied w (take i (s # rest)) (take i (d # dests)) (?cand ((s # rest) ! i) j))
         \<and> files w' ((d # dests) ! i) = files w ((s # rest) ! i)
         \<and> ((s # rest) ! i \<notin> set (d # dests) \<longrightarrow> files w' ((s # rest) ! i) = None)"
        using each by (intro allI impI)
      show "\<forall>p. p \<notin> set (take (Suc n) (s # rest)) \<and> p \<notin> set (d # dests) \<longrightarrow>
             files w' p = files w p" by (rule frame)
      show "Suc n < length (s # rest) \<longrightarrow>
          (\<exists>d e. xdev ((s # rest) ! Suc n) d \<and> writeFault w d = Some e \<and> r = Inl (SysError e))"
        by (rule cause)
      show "dirs w' = dirs w" using IH(9) dw(1) by simp
      show "writeFault w' = writeFault w" using IH(10) dw(2) by simp
    qed
    then show ?thesis
      by (intro exI [of _ "Suc n"] exI [of _ "d # dests"] exI [of _ r] exI [of _ w'])
  qed
qed

text \<open>
  Claim C7. In a world with finitely many files, \<^verbatim>\<open>uniqueFilePath\<close> returns a path of the
  job directory that does not exist: the base name of the source when that is free,
  otherwise the name with \<open>_k\<close> before the extension, for the first \<open>k \<ge> 1\<close> that is free.
  The loop that moves the selected media ends, and changes no file that existed before,
  the sources apart. When the sources are distinct files, it moves them one by one until
  the first move that fails, which can only be a copy across devices that cannot be
  written: the destinations are distinct; each is the first candidate name of its source
  that is free at that moment, that is, neither a path that existed at the start (and
  has not been moved away since) nor the destination of an earlier media; each holds the
  content of its source, which is gone; every other file is as it was. When
  \<^verbatim>\<open>fs.rename\<close> fails with \<open>EXDEV\<close>, the copy is exclusive: on an existing destination it
  fails with \<open>EEXIST\<close> and changes no file; on a free destination the content is copied
  and the source deleted.
\<close>

theorem materialize_never_overwrites:
  assumes "finiteWorld w"
  shows "(\<exists>k. uniqueFilePath w jobDir base =
               Some (pathJoin jobDir (parsedName base @ fileSuffix k @ extname base))
            \<and> \<not> pathExists w (pathJoin jobDir (parsedName base @ fileSuffix k @ extname base))
            \<and> (\<forall>j < k. pathExists w (pathJoin jobDir (parsedName base @ fileSuffix j @ extname base)))
            \<and> (k = 0 \<longrightarrow> parsedName base @ fileSuffix k @ extname base = base)
            \<and> (0 < k \<longrightarrow> fileSuffix k = CHR ''_'' # decimal k
                   \<and> parsedName base @ fileSuffix k @ extname base \<noteq> base)
            \<and> (k = 0 \<longleftrightarrow> \<not> pathExists w (pathJoin jobDir base)))
       \<and> (\<exists>r w'. moveSelectedMedia xdev jobDir sources w = Some (r, w')
            \<and> (\<forall>p c. files w p = Some c \<and> p \<notin> set sources \<longrightarrow> files w' p = Some c))
       \<and> (distinct sources \<and> (\<forall>s \<in> set sources. files w s \<noteq> None) \<longrightarrow>
            (\<exists>n dests r w'. moveSelectedMedia xdev jobDir sources w = Some (r, w')
               \<and> n \<le> length sources \<and> length dests = n \<and> distinct dests
               \<and> (r = Inr () \<longleftrightarrow> n = length sources)
               \<and> (\<forall>i < n. \<exists>k.
                     dests ! i = candidatePath jobDir (parsedName (basename (sources ! i)))
                                   (extname (basename (sources ! i))) k
                   \<and> (k = 0 \<longleftrightarrow> dests ! i = pathJoin jobDir (basename (sources ! i)))
                   \<and> \<not> occupied w (take i sources) (take i dests) (dests ! i)
                   \<and> (\<forall>j < k. occupied w (take i sources) (take i dests)
                                  (candidatePath jobDir (parsedName (basename (sources ! i)))
                                     (extname (basename (sources ! i))) j))
                   \<and> files w' (dests ! i) = files w (sources ! i)
                   \<and> (sources ! i \<notin> set dests \<longrightarrow> files w' (sources ! i) = None))
               \<and> (\<forall>p. p \<notin> set (take n sources) \<and> p \<notin> set dests \<longrightarrow> files w' p = files w p)
               \<and> (n < length sources \<longrightarrow>
                    (\<exists>d e. xdev (sources ! n) d \<and> writeFault w d = Some e
                       \<and> r = Inl (SysError e)))
               \<and> dirs w' = dirs w \<and> writeFault w' = writeFault w))
       \<and> (\<forall>source destination content.
             files w source = Some content \<and> xdev source destination \<and> pathExists w destination \<longrightarrow>
             fst (moveFileSafe xdev source destination w) = Inl (SysError EEXIST)
             \<and> files (snd (moveFileSafe xdev source destination w)) = files w)
       \<and> (\<forall>source destination content.
             files w source = Some content \<and> \<not> pathExists w destination
             \<and> writeFault w destination = None \<longrightarrow>
             fst (moveFileSafe xdev source destination w) = Inr ()
             \<and> files (snd (moveFileSafe xdev source destination w)) =
                 (files w)(source := None, destination \<mapsto> content)
             \<and> trace (snd (moveFileSafe xdev source destination w)) =
                 trace w @ (if xdev source destination
                            then [Rename source destination (Some EXDEV),
                                  CopyFile source destination None, Unlink source None]
                            else [Rename source destination None]))"
proof (intro conjI)
  let ?c = "candidatePath jobDir (parsedName base) (extname base)"
  obtain k where k: "uniqueFilePath w jobDir base = Some (?c k)" "\<not> pathExists w (?c k)"
    "\<forall>j < k. pathExists w (?c j)"
    using uniqueFilePath_result [OF assms] by blast
  have zero: "k = 0 \<longrightarrow> parsedName base @ fileSuffix k @ extname base = base"
    by (simp add: fileSuffix_def parsedName_extname)
  have pos: "0 < k \<longrightarrow> fileSuffix k = CHR ''_'' # decimal k
      \<and> parsedName base @ fileSuffix k @ extname base \<noteq> base"
  proof
    assume "0 < k"
    then have s: "fileSuffix k = CHR ''_'' # decimal k" by (simp add: fileSuffix_def)
    then have "parsedName base @ fileSuffix k @ extname base \<noteq> parsedName base @ extname base"
      by simp
    then show "fileSuffix k = CHR ''_'' # decimal k
      \<and> parsedName base @ fileSuffix k @ extname base \<noteq> base"
      using s by (simp add: parsedName_extname)
  qed
  have iff: "k = 0 \<longleftrightarrow> \<not> pathExists w (pathJoin jobDir base)"
  proof
    assume "k = 0"
    then show "\<not> pathExists w (pathJoin jobDir base)" using k(2) by (simp add: candidatePath_0)
  next
    assume "\<not> pathExists w (pathJoin jobDir base)"
    then have "\<not> pathExists w (?c 0)" by (simp add: candidatePath_0)
    then show "k = 0" using k(3) by (cases "k = 0") auto
  qed
  have u: "uniqueFilePath w jobDir base =
             Some (pathJoin jobDir (parsedName base @ fileSuffix k @ extname base))"
    using k(1) unfolding candidatePath_def .
  have free: "\<not> pathExists w (pathJoin jobDir (parsedName base @ fileSuffix k @ extname base))"
    using k(2) unfolding candidatePath_def .
  have taken: "\<forall>j < k. pathExists w (pathJoin jobDir (parsedName base @ fileSuffix j @ extname base))"
    using k(3) unfolding candidatePath_def .
  show "\<exists>k. uniqueFilePath w jobDir base =
               Some (pathJoin jobDir (parsedName base @ fileSuffix k @ extname base))
            \<and> \<not> pathExists w (pathJoin jobDir (parsedName base @ fileSuffix k @ extname base))
            \<and> (\<forall>j < k. pathExists w (pathJoin jobDir (parsedName base @ fileSuffix j @ extname base)))
            \<and> (k = 0 \<longrightarrow> parsedName base @ fileSuffix k @ extname base = base)
            \<and> (0 < k \<longrightarrow> fileSuffix k = CHR ''_'' # decimal k
                   \<and> parsedName base @ fileSuffix k @ extname base \<noteq> base)
            \<and> (k = 0 \<longleftrightarrow> \<not> pathExists w (pathJoin jobDir base))"
  proof (rule exI [of _ k], intro conjI)
    show "uniqueFilePath w jobDir base =
             Some (pathJoin jobDir (parsedName base @ fileSuffix k @ extname base))" by (rule u)
    show "\<not> pathExists w (pathJoin jobDir (parsedName base @ fileSuffix k @ extname base))"
      by (rule free)
    show "\<forall>j < k. pathExists w (pathJoin jobDir (parsedName base @ fileSuffix j @ extname base))"
      by (rule taken)
    show "k = 0 \<longrightarrow> parsedName base @ fileSuffix k @ extname base = base" by (rule zero)
    show "0 < k \<longrightarrow> fileSuffix k = CHR ''_'' # decimal k
                   \<and> parsedName base @ fileSuffix k @ extname base \<noteq> base" by (rule pos)
    show "k = 0 \<longleftrightarrow> \<not> pathExists w (pathJoin jobDir base)" by (rule iff)
  qed
  show "\<exists>r w'. moveSelectedMedia xdev jobDir sources w = Some (r, w')
            \<and> (\<forall>p c. files w p = Some c \<and> p \<notin> set sources \<longrightarrow> files w' p = Some c)"
    using moveSelectedMedia_keeps [OF assms] .
  show "distinct sources \<and> (\<forall>s \<in> set sources. files w s \<noteq> None) \<longrightarrow>
            (\<exists>n dests r w'. moveSelectedMedia xdev jobDir sources w = Some (r, w')
               \<and> n \<le> length sources \<and> length dests = n \<and> distinct dests
               \<and> (r = Inr () \<longleftrightarrow> n = length sources)
               \<and> (\<forall>i < n. \<exists>k.
                     dests ! i = candidatePath jobDir (parsedName (basename (sources ! i)))
                                   (extname (basename (sources ! i))) k
                   \<and> (k = 0 \<longleftrightarrow> dests ! i = pathJoin jobDir (basename (sources ! i)))
                   \<and> \<not> occupied w (take i sources) (take i dests) (dests ! i)
                   \<and> (\<forall>j < k. occupied w (take i sources) (take i dests)
                                  (candidatePath jobDir (parsedName (basename (sources ! i)))
                                     (extname (basename (sources ! i))) j))
                   \<and> files w' (dests ! i) = files w (sources ! i)
                   \<and> (sources ! i \<notin> set dests \<longrightarrow> files w' (sources ! i) = None))
               \<and> (\<forall>p. p \<notin> set (take n sources) \<and> p \<notin> set dests \<longrightarrow> files w' p = files w p)
               \<and> (n < length sources \<longrightarrow>
                    (\<exists>d e. xdev (sources ! n) d \<and> writeFault w d = Some e
                       \<and> r = Inl (SysError e)))
               \<and> dirs w' = dirs w \<and> writeFault w' = writeFault w)"
    by (intro impI, elim conjE, rule moveSelectedMedia_places [OF assms])
  show "\<forall>source destination content.
             files w source = Some content \<and> xdev source destination \<and> pathExists w destination \<longrightarrow>
             fst (moveFileSafe xdev source destination w) = Inl (SysError EEXIST)
             \<and> files (snd (moveFileSafe xdev source destination w)) = files w"
    by (intro allI impI, elim conjE, rule moveFileSafe_xdev_existing)
  show "\<forall>source destination content.
             files w source = Some content \<and> \<not> pathExists w destination
             \<and> writeFault w destination = None \<longrightarrow>
             fst (moveFileSafe xdev source destination w) = Inr ()
             \<and> files (snd (moveFileSafe xdev source destination w)) =
                 (files w)(source := None, destination \<mapsto> content)
             \<and> trace (snd (moveFileSafe xdev source destination w)) =
                 trace w @ (if xdev source destination
                            then [Rename source destination (Some EXDEV),
                                  CopyFile source destination None, Unlink source None]
                            else [Rename source destination None])"
    by (intro allI impI, elim conjE, rule moveFileSafe_moves)
qed

lemma finiteWorld_collisionWorld: "finiteWorld collisionWorld"
  by (simp add: finiteWorld_def collisionWorld_def)

theorem materialize_never_overwrites_witness:
  "finiteWorld collisionWorld
   \<and> distinct [''/src/x/a.jpg'', ''/src/y/a.jpg'']
   \<and> files collisionWorld ''/out/job/a.jpg'' = Some ''old''
   \<and> (\<exists>dests w'. moveSelectedMedia (\<lambda>a b. False) ''/out/job'' [''/src/x/a.jpg'', ''/src/y/a.jpg'']
                     collisionWorld = Some (Inr (), w')
          \<and> length dests = 2 \<and> distinct dests
          \<and> files w' (dests ! 0) = Some ''X'' \<and> files w' (dests ! 1) = Some ''Y''
          \<and> files w' ''/out/job/a.jpg'' = Some ''old'')"
proof -
  let ?w = collisionWorld
  let ?src = "[''/src/x/a.jpg'', ''/src/y/a.jpg'']"
  let ?old = "''/out/job/a.jpg''"
  have f: "files ?w ?old = Some ''old''" by (simp add: collisionWorld_def)
  have fx: "files ?w (?src ! 0) = Some ''X''" "files ?w (?src ! 1) = Some ''Y''"
    by (simp_all add: collisionWorld_def)
  have d: "distinct ?src" by simp
  have e: "\<forall>s \<in> set ?src. files ?w s \<noteq> None" by (simp add: collisionWorld_def)
  note t = materialize_never_overwrites [OF finiteWorld_collisionWorld,
        of "''/out/job''" "''a.jpg''" "\<lambda>a b. False" ?src,
        THEN conjunct2, THEN conjunct2, THEN conjunct1, THEN mp, OF conjI [OF d e]]
  obtain n dests r w' where
    m: "moveSelectedMedia (\<lambda>a b. False) ''/out/job'' ?src ?w = Some (r, w')"
    and len: "n \<le> length ?src" "length dests = n" and dist: "distinct dests"
    and ok: "r = Inr () \<longleftrightarrow> n = length ?src"
    and each: "\<forall>i < n. \<exists>k.
         dests ! i = candidatePath ''/out/job'' (parsedName (basename (?src ! i)))
                       (extname (basename (?src ! i))) k
       \<and> (k = 0 \<longleftrightarrow> dests ! i = pathJoin ''/out/job'' (basename (?src ! i)))
       \<and> \<not> occupied ?w (take i ?src) (take i dests) (dests ! i)
       \<and> (\<forall>j < k. occupied ?w (take i ?src) (take i dests)
                      (candidatePath ''/out/job'' (parsedName (basename (?src ! i)))
                         (extname (basename (?src ! i))) j))
       \<and> files w' (dests ! i) = files ?w (?src ! i)
       \<and> (?src ! i \<notin> set dests \<longrightarrow> files w' (?src ! i) = None)"
    and frame: "\<forall>p. p \<notin> set (take n ?src) \<and> p \<notin> set dests \<longrightarrow> files w' p = files ?w p"
    and cause: "n < length ?src \<longrightarrow>
          (\<exists>d e. (\<lambda>a b. False) (?src ! n) d \<and> writeFault ?w d = Some e \<and> r = Inl (SysError e))"
    using t by (elim exE conjE)
  have n: "n = 2" using cause len(1) by (cases "n < length ?src") simp_all
  then have r: "r = Inr ()" using ok by simp
  have i0: "0 < n" and i1: "1 < n" using n by simp_all
  have "files w' (dests ! 0) = files ?w (?src ! 0)"
    using each [rule_format, OF i0] by (elim exE conjE)
  then have c0: "files w' (dests ! 0) = Some ''X''" using fx(1) by (simp only:)
  have "files w' (dests ! 1) = files ?w (?src ! 1)"
    using each [rule_format, OF i1] by (elim exE conjE)
  then have c1: "files w' (dests ! 1) = Some ''Y''" using fx(2) by (simp only:)
  have src: "?old \<notin> set ?src" by simp
  have notsrc: "?old \<notin> set (take n ?src)" using src by (blast dest: in_set_takeD)
  have "?old \<notin> set dests"
  proof
    assume "?old \<in> set dests"
    then obtain i where i: "i < n" "dests ! i = ?old"
      using len(2) by (auto simp add: in_set_conv_nth)
    have "\<not> occupied ?w (take i ?src) (take i dests) (dests ! i)"
      using each [rule_format, OF i(1)] by (elim exE conjE)
    then have no: "\<not> occupied ?w (take i ?src) (take i dests) ?old" using i(2) by simp
    have "?old \<notin> set (take i ?src)" using src by (blast dest: in_set_takeD)
    then have "occupied ?w (take i ?src) (take i dests) ?old"
      using f by (simp add: occupied_def)
    then show False using no by (rule rev_notE)
  qed
  then have "files w' ?old = Some ''old''" using frame notsrc f by simp
  then have "moveSelectedMedia (\<lambda>a b. False) ''/out/job'' ?src ?w = Some (Inr (), w')
          \<and> length dests = 2 \<and> distinct dests
          \<and> files w' (dests ! 0) = Some ''X'' \<and> files w' (dests ! 1) = Some ''Y''
          \<and> files w' ?old = Some ''old''"
    using m r len(2) n dist c0 c1 by simp
  then have "\<exists>dests w'. moveSelectedMedia (\<lambda>a b. False) ''/out/job'' ?src ?w = Some (Inr (), w')
          \<and> length dests = 2 \<and> distinct dests
          \<and> files w' (dests ! 0) = Some ''X'' \<and> files w' (dests ! 1) = Some ''Y''
          \<and> files w' ?old = Some ''old''"
    by (intro exI [of _ dests] exI [of _ w'])
  then show ?thesis using finiteWorld_collisionWorld d f by (intro conjI)
qed

lemma decimal_examples:
  "decimal 1 = ''1''" "decimal (Suc 0) = ''1''" "decimal 2 = ''2''" "decimal (Suc (Suc 0)) = ''2''"
  by code_simp+

text \<open>
  Two media of the same name, moved to a job directory that holds a file of that name: the
  three files end under three names.
\<close>

lemma moveSelectedMedia_example:
  "map_option (\<lambda>(r, w'). (r, files w' ''/out/job/a.jpg'', files w' ''/out/job/a_1.jpg'',
                 files w' ''/out/job/a_2.jpg'', files w' ''/src/x/a.jpg'', files w' ''/src/y/a.jpg''))
     (moveSelectedMedia (\<lambda>a b. False) ''/out/job'' [''/src/x/a.jpg'', ''/src/y/a.jpg''] collisionWorld) =
   Some (Inr (), Some ''old'', Some ''X'', Some ''Y'', None, None)"
  by (simp add: collisionWorld_def uniqueFilePath_def uniqueFilePathLoop.simps candidatePath_def
      pathJoin_def fileSuffix_def basename_def extname_def parsedName_def moveFileSafe_def
      rename_def logEvent_def pathExists_def Let_def decimal_examples)

text \<open>The same two media in a job directory that is empty: \<^verbatim>\<open>a.jpg\<close> and \<^verbatim>\<open>a_1.jpg\<close>.\<close>

lemma moveSelectedMedia_fresh_example:
  "map_option (\<lambda>(r, w'). (r, files w' ''/out/job/a.jpg'', files w' ''/out/job/a_1.jpg'',
                 files w' ''/src/x/a.jpg'', files w' ''/src/y/a.jpg''))
     (moveSelectedMedia (\<lambda>a b. False) ''/out/job'' [''/src/x/a.jpg'', ''/src/y/a.jpg'']
        (collisionWorld\<lparr>files := (files collisionWorld)(''/out/job/a.jpg'' := None)\<rparr>)) =
   Some (Inr (), Some ''X'', Some ''Y'', None, None)"
  by (simp add: collisionWorld_def uniqueFilePath_def uniqueFilePathLoop.simps candidatePath_def
      pathJoin_def fileSuffix_def basename_def extname_def parsedName_def moveFileSafe_def
      rename_def logEvent_def pathExists_def Let_def decimal_examples)

section \<open>The trace of a run\<close>

lemma trace_logEvent [simp]: "trace (logEvent ev w) = trace w @ [ev]"
  by (simp add: logEvent_def)

lemma mkdirRecursive_trace:
  "\<exists>r. trace (snd (mkdirRecursive path w)) = trace w @ [Mkdir path r]"
  by (simp add: mkdirRecursive_def logEvent_def split: option.splits)

lemma mkdirAll_trace:
  "\<exists>evs. trace (snd (mkdirAll paths w)) = trace w @ evs
         \<and> (\<forall>ev \<in> set evs. \<not> isMove ev \<and> \<not> isWrite ev)"
proof (induction paths arbitrary: w)
  case Nil
  show ?case by simp
next
  case (Cons path rest)
  obtain r w1 where m: "mkdirRecursive path w = (r, w1)" by (cases "mkdirRecursive path w")
  obtain r0 where t1: "trace w1 = trace w @ [Mkdir path r0]"
    using mkdirRecursive_trace [of path w] m by auto
  show ?case
  proof (cases r)
    case (Some code)
    then have "trace (snd (mkdirAll (path # rest) w)) = trace w @ [Mkdir path r0]"
      using m t1 by simp
    moreover have "\<forall>ev \<in> set [Mkdir path r0]. \<not> isMove ev \<and> \<not> isWrite ev" by simp
    ultimately show ?thesis by blast
  next
    case None
    obtain evs where e: "trace (snd (mkdirAll rest w1)) = trace w1 @ evs"
      "\<forall>ev \<in> set evs. \<not> isMove ev \<and> \<not> isWrite ev"
      using Cons.IH [of w1] by blast
    have "trace (snd (mkdirAll (path # rest) w)) = trace w @ (Mkdir path r0 # evs)"
      using m None t1 e(1) by simp
    moreover have "\<forall>ev \<in> set (Mkdir path r0 # evs). \<not> isMove ev \<and> \<not> isWrite ev"
      using e(2) by simp
    ultimately show ?thesis by blast
  qed
qed

lemma acquireLock_trace:
  "\<exists>evs. trace (snd (acquireLock c k path p now w)) = trace w @ evs
         \<and> (\<forall>ev \<in> set evs. \<not> isMove ev \<and> \<not> isWrite ev)"
proof -
  have "trace (snd (acquireLock c k path p now w)) = trace w @ [Open path None]
      \<or> (\<exists>r. trace (snd (acquireLock c k path p now w)) = trace w @ [Open path r])
      \<or> (\<exists>r1 r2. trace (snd (acquireLock c k path p now w)) = trace w @ [Open path r1, Rm path r2])
      \<or> (\<exists>r1 r2 r3. trace (snd (acquireLock c k path p now w)) =
            trace w @ [Open path r1, Rm path r2, Open path r3])"
    by (auto simp add: acquireLock_def openWx_def rmForce_def logEvent_def Let_def
        split: option.splits if_splits)
  then show ?thesis
  proof (elim disjE exE)
    assume a: "trace (snd (acquireLock c k path p now w)) = trace w @ [Open path None]"
    show ?thesis by (rule exI [of _ "[Open path None]"]) (simp add: a)
  next
    fix r assume a: "trace (snd (acquireLock c k path p now w)) = trace w @ [Open path r]"
    show ?thesis by (rule exI [of _ "[Open path r]"]) (simp add: a)
  next
    fix r1 r2
    assume a: "trace (snd (acquireLock c k path p now w)) = trace w @ [Open path r1, Rm path r2]"
    show ?thesis by (rule exI [of _ "[Open path r1, Rm path r2]"]) (simp add: a)
  next
    fix r1 r2 r3
    assume a: "trace (snd (acquireLock c k path p now w)) =
            trace w @ [Open path r1, Rm path r2, Open path r3]"
    show ?thesis by (rule exI [of _ "[Open path r1, Rm path r2, Open path r3]"]) (simp add: a)
  qed
qed

lemma mkdir_trace: "\<exists>r. trace (snd (mkdir path w)) = trace w @ [Mkdir path r]"
  by (simp add: mkdir_def logEvent_def split: option.splits)

lemma uniqueDirectoryPathLoop_trace:
  assumes "uniqueDirectoryPathLoop baseDir desiredName attempt w = Some y"
  shows "\<exists>evs. trace (snd y) = trace w @ evs \<and> (\<forall>ev \<in> set evs. \<not> isMove ev \<and> \<not> isWrite ev)"
proof (rule uniqueDirectoryPathLoop.raw_induct
    [where P = "\<lambda>baseDir desiredName attempt w y.
        \<exists>evs. trace (snd y) = trace w @ evs \<and> (\<forall>ev \<in> set evs. \<not> isMove ev \<and> \<not> isWrite ev)",
     OF _ assms])
  fix loop :: "string \<Rightarrow> string \<Rightarrow> nat \<Rightarrow> world \<Rightarrow> ((error + string) \<times> world) option"
    and baseDir desiredName attempt w y
  assume IH: "\<And>baseDir desiredName attempt w y. loop baseDir desiredName attempt w = Some y \<Longrightarrow>
      \<exists>evs. trace (snd y) = trace w @ evs \<and> (\<forall>ev \<in> set evs. \<not> isMove ev \<and> \<not> isWrite ev)"
    and eq: "(case mkdir (pathJoin baseDir (desiredName @ dirSuffix attempt)) w of
        (None, w1) \<Rightarrow> Some (Inr (pathJoin baseDir (desiredName @ dirSuffix attempt)), w1)
      | (Some e, w1) \<Rightarrow>
          if e \<noteq> EEXIST then Some (Inl (SysError e), w1)
          else loop baseDir desiredName (attempt + 1) w1) = Some y"
  let ?p = "pathJoin baseDir (desiredName @ dirSuffix attempt)"
  obtain r w1 where m: "mkdir ?p w = (r, w1)" by (cases "mkdir ?p w")
  obtain r0 where t1: "trace w1 = trace w @ [Mkdir ?p r0]"
    using mkdir_trace [of ?p w] m by auto
  have one: "\<forall>ev \<in> set [Mkdir ?p r0]. \<not> isMove ev \<and> \<not> isWrite ev" by simp
  show "\<exists>evs. trace (snd y) = trace w @ evs \<and> (\<forall>ev \<in> set evs. \<not> isMove ev \<and> \<not> isWrite ev)"
  proof (cases "r = Some EEXIST")
    case True
    then have "loop baseDir desiredName (attempt + 1) w1 = Some y"
      using eq m by simp
    then obtain evs where e: "trace (snd y) = trace w1 @ evs"
      "\<forall>ev \<in> set evs. \<not> isMove ev \<and> \<not> isWrite ev"
      using IH by blast
    have "trace (snd y) = trace w @ (Mkdir ?p r0 # evs)" using e(1) t1 by simp
    moreover have "\<forall>ev \<in> set (Mkdir ?p r0 # evs). \<not> isMove ev \<and> \<not> isWrite ev"
      using e(2) by simp
    ultimately show ?thesis by blast
  next
    case False
    then have "snd y = w1" using eq m by (auto split: option.splits if_splits)
    then have "trace (snd y) = trace w @ [Mkdir ?p r0]" using t1 by simp
    then show ?thesis using one by blast
  qed
qed

lemma moveFileSafe_trace:
  "\<exists>evs. trace (snd (moveFileSafe xd source destination w)) = trace w @ evs
         \<and> (\<forall>ev \<in> set evs. isMove ev)
         \<and> (fst (moveFileSafe xd source destination w) = Inr () \<longrightarrow>
              length (filter isCompletedMove evs) = 1)"
proof -
  have "(\<exists>r. trace (snd (moveFileSafe xd source destination w)) =
               trace w @ [Rename source destination (Some r)]
             \<and> fst (moveFileSafe xd source destination w) \<noteq> Inr ())
      \<or> (trace (snd (moveFileSafe xd source destination w)) =
               trace w @ [Rename source destination None])
      \<or> (\<exists>r. trace (snd (moveFileSafe xd source destination w)) =
               trace w @ [Rename source destination (Some EXDEV), CopyFile source destination (Some r)]
             \<and> fst (moveFileSafe xd source destination w) \<noteq> Inr ())
      \<or> (\<exists>r. trace (snd (moveFileSafe xd source destination w)) =
               trace w @ [Rename source destination (Some EXDEV), CopyFile source destination None,
                          Unlink source (Some r)]
             \<and> fst (moveFileSafe xd source destination w) \<noteq> Inr ())
      \<or> (trace (snd (moveFileSafe xd source destination w)) =
               trace w @ [Rename source destination (Some EXDEV), CopyFile source destination None,
                          Unlink source None])"
    by (auto simp add: moveFileSafe_def rename_def copyFileExcl_def unlink_def logEvent_def
        split: option.splits if_splits)
  then show ?thesis
  proof (elim disjE exE conjE)
    fix r
    assume a: "trace (snd (moveFileSafe xd source destination w)) =
               trace w @ [Rename source destination (Some r)]"
      and b: "fst (moveFileSafe xd source destination w) \<noteq> Inr ()"
    show ?thesis by (rule exI [of _ "[Rename source destination (Some r)]"]) (simp add: a b)
  next
    assume a: "trace (snd (moveFileSafe xd source destination w)) =
               trace w @ [Rename source destination None]"
    show ?thesis by (rule exI [of _ "[Rename source destination None]"]) (simp add: a)
  next
    fix r
    assume a: "trace (snd (moveFileSafe xd source destination w)) =
               trace w @ [Rename source destination (Some EXDEV), CopyFile source destination (Some r)]"
      and b: "fst (moveFileSafe xd source destination w) \<noteq> Inr ()"
    show ?thesis
      by (rule exI [of _ "[Rename source destination (Some EXDEV),
                           CopyFile source destination (Some r)]"]) (simp add: a b)
  next
    fix r
    assume a: "trace (snd (moveFileSafe xd source destination w)) =
               trace w @ [Rename source destination (Some EXDEV), CopyFile source destination None,
                          Unlink source (Some r)]"
      and b: "fst (moveFileSafe xd source destination w) \<noteq> Inr ()"
    show ?thesis
      by (rule exI [of _ "[Rename source destination (Some EXDEV), CopyFile source destination None,
                           Unlink source (Some r)]"]) (simp add: a b)
  next
    assume a: "trace (snd (moveFileSafe xd source destination w)) =
               trace w @ [Rename source destination (Some EXDEV), CopyFile source destination None,
                          Unlink source None]"
    show ?thesis
      by (rule exI [of _ "[Rename source destination (Some EXDEV), CopyFile source destination None,
                           Unlink source None]"]) (simp add: a)
  qed
qed

lemma moveSelectedMedia_trace:
  assumes "moveSelectedMedia xd jobDir sources w = Some (r, w')"
  shows "\<exists>evs. trace w' = trace w @ evs
           \<and> (\<forall>ev \<in> set evs. isMove ev)
           \<and> (r = Inr () \<longrightarrow> length (filter isCompletedMove evs) = length sources)"
  using assms
proof (induction sources arbitrary: w)
  case Nil
  then show ?case by simp
next
  case (Cons sourcePath rest)
  from Cons.prems obtain dest where
    d: "uniqueFilePath w jobDir (basename sourcePath) = Some dest"
    by (auto split: option.splits)
  obtain r1 w1 where m: "moveFileSafe xd sourcePath dest w = (r1, w1)"
    by (cases "moveFileSafe xd sourcePath dest w")
  obtain evs1 where e1: "trace w1 = trace w @ evs1" "\<forall>ev \<in> set evs1. isMove ev"
    "r1 = Inr () \<longrightarrow> length (filter isCompletedMove evs1) = 1"
    using moveFileSafe_trace [of xd sourcePath dest w] m by auto
  show ?case
  proof (cases r1)
    case (Inl err)
    then have "r = Inl err" "w' = w1" using Cons.prems d m by simp_all
    then show ?thesis using e1 by auto
  next
    case (Inr u)
    then have "moveSelectedMedia xd jobDir rest w1 = Some (r, w')" using Cons.prems d m by simp
    then obtain evs where e: "trace w' = trace w1 @ evs" "\<forall>ev \<in> set evs. isMove ev"
      "r = Inr () \<longrightarrow> length (filter isCompletedMove evs) = length rest"
      using Cons.IH by blast
    have "trace w' = trace w @ (evs1 @ evs)" using e(1) e1(1) by simp
    moreover have "\<forall>ev \<in> set (evs1 @ evs). isMove ev" using e(2) e1(2) by auto
    moreover have "r = Inr () \<longrightarrow>
        length (filter isCompletedMove (evs1 @ evs)) = length (sourcePath # rest)"
      using e(3) e1(3) Inr by simp
    ultimately show ?thesis by blast
  qed
qed

lemma writeFile_trace:
  "writeFile path content w = (r, w') \<Longrightarrow> trace w' = trace w @ [WriteFile path content r]"
  by (auto simp add: writeFile_def logEvent_def split: if_splits option.splits)

lemma rmForce_trace:
  "rmForce path w = (r, w') \<Longrightarrow> trace w' = trace w @ [Rm path r]"
  by (auto simp add: rmForce_def logEvent_def split: if_splits)

lemma caption_file_not_bank: "pathJoin jobDir ''caption.txt'' \<noteq> captionsPath rootPath"
proof
  assume "pathJoin jobDir ''caption.txt'' = captionsPath rootPath"
  then have "last (pathJoin jobDir ''caption.txt'') = last (captionsPath rootPath)" by simp
  then show False by (simp add: pathJoin_def captionsPath_def)
qed

lemma packageJob_success:
  assumes "packageJob e selectedMedia captionText nextCaptions selectedHashtags w = Some (Inr u, w')"
  shows "\<exists>prep moves jobDir.
           trace w' = trace w @ prep @ moves @
             [WriteFile (pathJoin jobDir ''caption.txt'')
                (captionText @ [CHR 0x0A] @ joinSpace selectedHashtags @ [CHR 0x0A]) None,
              WriteFile (captionsPath (rootDir e))
                (JSON_stringify e (bankJson nextCaptions) @ [CHR 0x0A]) None]
         \<and> (\<forall>ev \<in> set prep. \<not> isMove ev \<and> \<not> isWrite ev)
         \<and> (\<forall>ev \<in> set moves. isMove ev)
         \<and> length (filter isCompletedMove moves) = length selectedMedia"
proof -
  from assms obtain jobDir w1 where
    d: "uniqueDirectoryPath (outputJobsDir (rootDir e)) (jobFolderName e) w = Some (Inr jobDir, w1)"
    by (auto simp add: packageJob_def split: option.splits sum.splits prod.splits)
  from assms d obtain u2 w2 where
    m: "moveSelectedMedia (crossDevice e) jobDir selectedMedia w1 = Some (Inr u2, w2)"
    by (auto simp add: packageJob_def split: option.splits sum.splits prod.splits)
  let ?content = "captionText @ [CHR 0x0A] @ joinSpace selectedHashtags @ [CHR 0x0A]"
  from assms d m obtain w3 where
    c: "writeFile (pathJoin jobDir ''caption.txt'') ?content w2 = (None, w3)"
    by (auto simp add: packageJob_def Let_def split: option.splits prod.splits)
  from assms d m c have
    b: "writeFile (captionsPath (rootDir e)) (JSON_stringify e (bankJson nextCaptions) @ [CHR 0x0A]) w3 =
          (None, w')"
    by (auto simp add: packageJob_def Let_def writeJsonFile_def split: option.splits prod.splits)
  obtain prep where s: "trace w1 = trace w @ prep"
    "\<forall>ev \<in> set prep. \<not> isMove ev \<and> \<not> isWrite ev"
    using uniqueDirectoryPathLoop_trace [OF d [unfolded uniqueDirectoryPath_def]] by auto
  obtain moves where mv: "trace w2 = trace w1 @ moves" "\<forall>ev \<in> set moves. isMove ev"
    "length (filter isCompletedMove moves) = length selectedMedia"
    using moveSelectedMedia_trace [OF m] by auto
  have "trace w' = trace w @ prep @ moves @
             [WriteFile (pathJoin jobDir ''caption.txt'') ?content None,
              WriteFile (captionsPath (rootDir e))
                (JSON_stringify e (bankJson nextCaptions) @ [CHR 0x0A]) None]"
    using writeFile_trace [OF c] writeFile_trace [OF b] s(1) mv(1) by simp
  then show ?thesis using s(2) mv(2,3) by blast
qed

lemma packageJob_failure:
  assumes "packageJob e selectedMedia captionText nextCaptions selectedHashtags w = Some (Inl err, w')"
  shows "\<exists>evs. trace w' = trace w @ evs
           \<and> (\<forall>ev \<in> set evs. \<forall>content. ev \<noteq> WriteFile (captionsPath (rootDir e)) content None)"
proof -
  let ?bank = "captionsPath (rootDir e)"
  obtain r1 w1 where
    d: "uniqueDirectoryPath (outputJobsDir (rootDir e)) (jobFolderName e) w = Some (r1, w1)"
    using assms by (auto simp add: packageJob_def split: option.splits)
  obtain prep where s: "trace w1 = trace w @ prep"
    "\<forall>ev \<in> set prep. \<not> isMove ev \<and> \<not> isWrite ev"
    using uniqueDirectoryPathLoop_trace [OF d [unfolded uniqueDirectoryPath_def]] by auto
  have s_ok: "\<forall>ev \<in> set prep. \<forall>content. ev \<noteq> WriteFile ?bank content None"
    using s(2) by auto
  show ?thesis
  proof (cases r1)
    case (Inl e1)
    then have "w' = w1" using assms d by (simp add: packageJob_def)
    then show ?thesis using s(1) s_ok by blast
  next
    case (Inr jobDir)
    obtain r2 w2 where
      m: "moveSelectedMedia (crossDevice e) jobDir selectedMedia w1 = Some (r2, w2)"
      using assms d Inr by (auto simp add: packageJob_def split: option.splits)
    obtain moves where mv: "trace w2 = trace w1 @ moves" "\<forall>ev \<in> set moves. isMove ev"
      using moveSelectedMedia_trace [OF m] by auto
    have m_ok: "\<forall>ev \<in> set moves. \<forall>content. ev \<noteq> WriteFile ?bank content None"
      using mv(2) by auto
    show ?thesis
    proof (cases r2)
      case (Inl e2)
      then have "w' = w2" using assms d Inr m by (simp add: packageJob_def)
      then have "trace w' = trace w @ (prep @ moves)" using s(1) mv(1) by simp
      moreover have "\<forall>ev \<in> set (prep @ moves). \<forall>content. ev \<noteq> WriteFile ?bank content None"
        using s_ok m_ok by auto
      ultimately show ?thesis by blast
    next
      case ok: (Inr u2)
      let ?content = "captionText @ [CHR 0x0A] @ joinSpace selectedHashtags @ [CHR 0x0A]"
      let ?cf = "pathJoin jobDir ''caption.txt''"
      obtain r3 w3 where c: "writeFile ?cf ?content w2 = (r3, w3)"
        by (cases "writeFile ?cf ?content w2")
      have t3: "trace w3 = trace w @ (prep @ moves @ [WriteFile ?cf ?content r3])"
        using writeFile_trace [OF c] s(1) mv(1) by simp
      have c_ok: "\<forall>content. WriteFile ?cf ?content r3 \<noteq> WriteFile ?bank content None"
        using caption_file_not_bank [of jobDir "rootDir e"] by simp
      show ?thesis
      proof (cases r3)
        case (Some code)
        then have "w' = w3" using assms d Inr m ok c by (simp add: packageJob_def Let_def)
        moreover have "\<forall>ev \<in> set (prep @ moves @ [WriteFile ?cf ?content r3]).
            \<forall>content. ev \<noteq> WriteFile ?bank content None"
          using s_ok m_ok c_ok by auto
        ultimately show ?thesis using t3 by blast
      next
        case None
        let ?json = "JSON_stringify e (bankJson nextCaptions) @ [CHR 0x0A]"
        obtain r4 w4 where b: "writeFile ?bank ?json w3 = (r4, w4)"
          by (cases "writeFile ?bank ?json w3")
        have r4: "r4 \<noteq> None" "w' = w4"
          using assms d Inr m ok c None b
          by (auto simp add: packageJob_def Let_def writeJsonFile_def split: option.splits)
        have "trace w' = trace w @ (prep @ moves @ [WriteFile ?cf ?content r3, WriteFile ?bank ?json r4])"
          using writeFile_trace [OF b] t3 r4(2) by simp
        moreover have "\<forall>ev \<in> set (prep @ moves @ [WriteFile ?cf ?content r3, WriteFile ?bank ?json r4]).
            \<forall>content. ev \<noteq> WriteFile ?bank content None"
          using s_ok m_ok c_ok r4(1) by auto
        ultimately show ?thesis by blast
      qed
    qed
  qed
qed

lemma runLocked_success:
  assumes "runLocked e w = Some (Inr Success, w')"
  shows "\<exists>selectedMedia captionText nextCaptions selectedHashtags u.
           selectMedia e = Inr (Some selectedMedia)
         \<and> selectCaption e w = Inr (captionText, nextCaptions)
         \<and> selectHashtags e w = Inr selectedHashtags
         \<and> packageJob e selectedMedia captionText nextCaptions selectedHashtags w = Some (Inr u, w')"
  using assms
  by (auto simp add: runLocked_def split: sum.splits option.splits prod.splits)

lemma runLocked_other:
  assumes "runLocked e w = Some (r, w')" "r \<noteq> Inr Success"
  shows "w' = w
       \<or> (\<exists>selectedMedia captionText nextCaptions selectedHashtags err.
             packageJob e selectedMedia captionText nextCaptions selectedHashtags w = Some (Inl err, w'))"
  using assms
  by (auto simp add: runLocked_def split: sum.splits option.splits prod.splits)

lemma selectCaption_whole_bank:
  assumes "selectCaption e w = Inr (captionText, nextCaptions)"
  shows "\<exists>normalizedCaptions.
           pickCaption (drawCaption e) (captionTime e) normalizedCaptions = Inr (captionText, nextCaptions)
         \<and> length nextCaptions = length normalizedCaptions"
proof -
  from assms obtain normalizedCaptions where
    p: "pickCaption (drawCaption e) (captionTime e) normalizedCaptions = Inr (captionText, nextCaptions)"
    by (auto simp add: selectCaption_def split: sum.splits)
  then have "length nextCaptions = length normalizedCaptions"
    by (auto simp add: pickCaption_unfold Let_def split: if_splits)
  then show ?thesis using p by blast
qed

lemma run_decompose:
  assumes "run e w = Some (result, w')"
  shows "(result \<noteq> Inr Success
          \<and> (\<exists>evs. trace w' = trace w @ evs \<and> (\<forall>ev \<in> set evs. \<not> isMove ev \<and> \<not> isWrite ev)))
       \<or> (\<exists>w2 r3 w3 released prep.
             trace w2 = trace w @ prep \<and> (\<forall>ev \<in> set prep. \<not> isMove ev \<and> \<not> isWrite ev)
           \<and> runLocked e w2 = Some (r3, w3)
           \<and> trace w' = trace w3 @ [Rm (lockFilePath (rootDir e)) released]
           \<and> (result = Inr Success \<longrightarrow> r3 = Inr Success \<and> released = None))"
proof -
  obtain r1 w1 where d: "ensureDirectories (rootDir e) w = (r1, w1)"
    by (cases "ensureDirectories (rootDir e) w")
  obtain ev1 where t1: "trace w1 = trace w @ ev1" "\<forall>ev \<in> set ev1. \<not> isMove ev \<and> \<not> isWrite ev"
    using mkdirAll_trace [of "[sourceImageDir (rootDir e), sourceVideoDir (rootDir e),
        outputJobsDir (rootDir e), dataDir (rootDir e)]" w] d
    by (auto simp add: ensureDirectories_def)
  show ?thesis
  proof (cases r1)
    case (Some code)
    then have "result \<noteq> Inr Success" "w' = w1" using assms d by (auto simp add: run_def)
    then show ?thesis using t1 by blast
  next
    case None
    obtain r2 w2 where
      l: "acquireLock (numberCoercion e) (killProbe e) (lockFilePath (rootDir e)) (processId e) (lockTime e) w1 = (r2, w2)"
      by (cases "acquireLock (numberCoercion e) (killProbe e) (lockFilePath (rootDir e)) (processId e) (lockTime e) w1")
    obtain ev2 where t2: "trace w2 = trace w1 @ ev2"
      "\<forall>ev \<in> set ev2. \<not> isMove ev \<and> \<not> isWrite ev"
      using acquireLock_trace [of "numberCoercion e" "killProbe e" "lockFilePath (rootDir e)" "processId e"
          "lockTime e" w1] l by auto
    have t12: "trace w2 = trace w @ (ev1 @ ev2)"
      "\<forall>ev \<in> set (ev1 @ ev2). \<not> isMove ev \<and> \<not> isWrite ev"
      using t1 t2 by auto
    show ?thesis
    proof (cases "r2 = Inr True")
      case False
      then have "result \<noteq> Inr Success" "w' = w2"
        using assms d None l by (auto simp add: run_def split: sum.splits bool.splits)
      then show ?thesis using t12 by blast
    next
      case True
      obtain r3 w3 where rl: "runLocked e w2 = Some (r3, w3)"
        using assms d None l True by (auto simp add: run_def split: option.splits)
      obtain released w4 where rel: "rmForce (lockFilePath (rootDir e)) w3 = (released, w4)"
        by (cases "rmForce (lockFilePath (rootDir e)) w3")
      have fin: "w' = w4" "result = Inr Success \<longrightarrow> r3 = Inr Success \<and> released = None"
        using assms d None l True rl rel
        by (auto simp add: run_def releaseLock_def split: option.splits)
      have "trace w' = trace w3 @ [Rm (lockFilePath (rootDir e)) released]"
        using rmForce_trace [OF rel] fin(1) by simp
      then show ?thesis using t12 rl fin(2) by blast
    qed
  qed
qed

text \<open>
  Claim C8. In every run, the events it adds to the trace being \<open>evs\<close>: when the run
  succeeds, and whenever a write of the caption bank file succeeds at all, \<open>evs\<close> is the
  preparation (directories and lock, no move and no write), then the moves of all the
  selected media, then the write of \<^verbatim>\<open>caption.txt\<close>, then the single write of the bank
  file, whose content is the whole rotated bank, then the removal of the lock. So the
  bank is never written before the moves or the caption file, and never in part.
\<close>

theorem bank_persisted_last:
  assumes "run e w = Some (result, w')"
  shows "\<exists>evs. trace w' = trace w @ evs
       \<and> (result = Inr Success
            \<or> (\<exists>content. WriteFile (captionsPath (rootDir e)) content None \<in> set evs) \<longrightarrow>
          (\<exists>selectedMedia captionText nextCaptions selectedHashtags normalizedCaptions
              prep moves jobDir released.
              selectMedia e = Inr (Some selectedMedia)
            \<and> pickCaption (drawCaption e) (captionTime e) normalizedCaptions =
                Inr (captionText, nextCaptions)
            \<and> length nextCaptions = length normalizedCaptions
            \<and> evs = prep @ moves @
                [WriteFile (pathJoin jobDir ''caption.txt'')
                   (captionText @ [CHR 0x0A] @ joinSpace selectedHashtags @ [CHR 0x0A]) None,
                 WriteFile (captionsPath (rootDir e))
                   (JSON_stringify e (bankJson nextCaptions) @ [CHR 0x0A]) None,
                 Rm (lockFilePath (rootDir e)) released]
            \<and> (\<forall>ev \<in> set prep. \<not> isMove ev \<and> \<not> isWrite ev)
            \<and> (\<forall>ev \<in> set moves. isMove ev)
            \<and> length (filter isCompletedMove moves) = length selectedMedia
            \<and> (result = Inr Success \<longrightarrow> released = None)))"
proof -
  let ?bank = "captionsPath (rootDir e)"
  let ?lock = "lockFilePath (rootDir e)"
  from run_decompose [OF assms] show ?thesis
  proof (elim disjE conjE exE)
    fix evs
    assume early: "result \<noteq> Inr Success" "trace w' = trace w @ evs"
      "\<forall>ev \<in> set evs. \<not> isMove ev \<and> \<not> isWrite ev"
    then have "\<not> (\<exists>content. WriteFile ?bank content None \<in> set evs)" by auto
    then show ?thesis using early(1,2) by blast
  next
    fix w2 r3 w3 released prep
    assume t2: "trace w2 = trace w @ prep"
      and p: "\<forall>ev \<in> set prep. \<not> isMove ev \<and> \<not> isWrite ev"
      and rl: "runLocked e w2 = Some (r3, w3)"
      and t': "trace w' = trace w3 @ [Rm ?lock released]"
      and res: "result = Inr Success \<longrightarrow> r3 = Inr Success \<and> released = None"
    have p_ok: "\<forall>ev \<in> set prep. \<forall>content. ev \<noteq> WriteFile ?bank content None" using p by auto
    show ?thesis
    proof (cases "r3 = Inr Success")
      case True
      obtain selectedMedia captionText nextCaptions selectedHashtags u where
        sm: "selectMedia e = Inr (Some selectedMedia)"
        and sc: "selectCaption e w2 = Inr (captionText, nextCaptions)"
        and pj: "packageJob e selectedMedia captionText nextCaptions selectedHashtags w2 = Some (Inr u, w3)"
        using runLocked_success [OF rl [unfolded True]] by blast
      obtain normalizedCaptions where
        pc: "pickCaption (drawCaption e) (captionTime e) normalizedCaptions =
               Inr (captionText, nextCaptions)"
        "length nextCaptions = length normalizedCaptions"
        using selectCaption_whole_bank [OF sc] by blast
      obtain prep2 moves jobDir where
        t3: "trace w3 = trace w2 @ prep2 @ moves @
             [WriteFile (pathJoin jobDir ''caption.txt'')
                (captionText @ [CHR 0x0A] @ joinSpace selectedHashtags @ [CHR 0x0A]) None,
              WriteFile ?bank (JSON_stringify e (bankJson nextCaptions) @ [CHR 0x0A]) None]"
        and p2: "\<forall>ev \<in> set prep2. \<not> isMove ev \<and> \<not> isWrite ev"
        and mv: "\<forall>ev \<in> set moves. isMove ev"
          "length (filter isCompletedMove moves) = length selectedMedia"
        using packageJob_success [OF pj] by blast
      let ?evs = "(prep @ prep2) @ moves @
             [WriteFile (pathJoin jobDir ''caption.txt'')
                (captionText @ [CHR 0x0A] @ joinSpace selectedHashtags @ [CHR 0x0A]) None,
              WriteFile ?bank (JSON_stringify e (bankJson nextCaptions) @ [CHR 0x0A]) None,
              Rm ?lock released]"
      have tr: "trace w' = trace w @ ?evs" using t' t3 t2 by simp
      have pp: "\<forall>ev \<in> set (prep @ prep2). \<not> isMove ev \<and> \<not> isWrite ev" using p p2 by auto
      have "\<exists>selectedMedia captionText nextCaptions selectedHashtags normalizedCaptions
              prep moves jobDir released'.
              selectMedia e = Inr (Some selectedMedia)
            \<and> pickCaption (drawCaption e) (captionTime e) normalizedCaptions =
                Inr (captionText, nextCaptions)
            \<and> length nextCaptions = length normalizedCaptions
            \<and> ?evs = prep @ moves @
                [WriteFile (pathJoin jobDir ''caption.txt'')
                   (captionText @ [CHR 0x0A] @ joinSpace selectedHashtags @ [CHR 0x0A]) None,
                 WriteFile ?bank (JSON_stringify e (bankJson nextCaptions) @ [CHR 0x0A]) None,
                 Rm ?lock released']
            \<and> (\<forall>ev \<in> set prep. \<not> isMove ev \<and> \<not> isWrite ev)
            \<and> (\<forall>ev \<in> set moves. isMove ev)
            \<and> length (filter isCompletedMove moves) = length selectedMedia
            \<and> (result = Inr Success \<longrightarrow> released' = None)"
        using sm pc pp mv res by blast
      then show ?thesis using tr by blast
    next
      case False
      then have ns: "result \<noteq> Inr Success" using res by blast
      have "\<exists>evs3. trace w3 = trace w2 @ evs3
          \<and> (\<forall>ev \<in> set evs3. \<forall>content. ev \<noteq> WriteFile ?bank content None)"
        using runLocked_other [OF rl False]
      proof
        assume "w3 = w2"
        then have "trace w3 = trace w2 @ []" by simp
        then show ?thesis by (rule exI [of _ "[]", OF conjI]) simp
      next
        assume "\<exists>selectedMedia captionText nextCaptions selectedHashtags err.
             packageJob e selectedMedia captionText nextCaptions selectedHashtags w2 = Some (Inl err, w3)"
        then show ?thesis using packageJob_failure by blast
      qed
      then obtain evs3 where e3: "trace w3 = trace w2 @ evs3"
        "\<forall>ev \<in> set evs3. \<forall>content. ev \<noteq> WriteFile ?bank content None" by blast
      have tr: "trace w' = trace w @ (prep @ evs3 @ [Rm ?lock released])"
        using t' e3(1) t2 by simp
      have "\<not> (\<exists>content. WriteFile ?bank content None \<in> set (prep @ evs3 @ [Rm ?lock released]))"
        using p_ok e3(2) by auto
      then show ?thesis using tr ns by blast
    qed
  qed
qed

lemma selectMedia_example:
  "selectMedia exampleEnv =
     Inr (Some [''/r/source_media/images/b.jpg'', ''/r/source_media/images/a.jpg'',
                ''/r/source_media/videos/d.mp4'', ''/r/source_media/videos/e.mp4''])"
  by (simp add: selectMedia_def exampleEnv_def chooseComposition_def possibleImageCounts_def
      randomIndex_def pickRandomItems_def splice1_def Let_def numeral_2_eq_2)

lemma selectCaption_example:
  assumes "readFile w ''/r/data/captions.json'' = Inr ''captions''"
  shows "selectCaption exampleEnv w =
     Inr (''Hi'', [\<lparr>cid = JNum 1, ctext = ''Hi'', used = True,
                     used_at = JStr ''2026-02-22T14:00:01.000Z''\<rparr>])"
  using assms
  by (simp add: selectCaption_def readJsonFile_def exampleEnv_def captionsPath_def dataDir_def
      pathJoin_def textCandidate_def trim_def isWhiteSpace_def nullish_def pickCaption_def
      availableIndexes_def randomIndex_def Let_def)

lemma selectHashtags_example:
  assumes "readFile w ''/r/data/hashtags.json'' = Inr ''hashtags''"
  shows "selectHashtags exampleEnv w = Inr [''#y'', ''#z'', ''#x'']"
  using assms
  by (simp add: selectHashtags_def readJsonFile_def exampleEnv_def hashtagsPath_def dataDir_def
      pathJoin_def insertionOrder_def withHash_def startsWithHash_def trim_def isWhiteSpace_def
      pickHashtags_def randomIntInclusive_def pickRandomItems_def randomIndex_def splice1_def
      Let_def numeral_3_eq_3)

lemma run_example: "map_option fst (run exampleEnv exampleWorld) = Some (Inr Success)"
proof -
  have sel: "rootDir exampleEnv = ''/r''" "processId exampleEnv = 4242"
    "jobFolderName exampleEnv = ''job_2026-02-22_21-00_WIB''"
    "killProbe exampleEnv = (\<lambda>p. Some ESRCH)" "crossDevice exampleEnv = (\<lambda>source destination. False)"
    "numberCoercion exampleEnv = (\<lambda>v. None)" "JSON_stringify exampleEnv = (\<lambda>v. ''bank'')"
    "lockTime exampleEnv = ''2026-02-22T14:00:00.000Z''"
    by (simp_all add: exampleEnv_def)
  show ?thesis
    by (simp add: run_def sel ensureDirectories_def mkdirRecursive_def
      sourceImageDir_def sourceVideoDir_def outputJobsDir_def dataDir_def lockFilePath_def
      captionsPath_def hashtagsPath_def
      pathJoin_def exampleWorld_def logEvent_def acquireLock_def openWx_def pathExists_def
      runLocked_def selectMedia_example selectCaption_example selectHashtags_example
      readFile_def packageJob_def uniqueDirectoryPath_def uniqueDirectoryPathLoop.simps
      mkdir_def dirSuffix_def uniqueFilePath_def uniqueFilePathLoop.simps candidatePath_def
      fileSuffix_def basename_def extname_def parsedName_def moveFileSafe_def rename_def
      writeFile_def writeJsonFile_def releaseLock_def rmForce_def Let_def)
qed

theorem bank_persisted_last_witness:
  "\<exists>w' prep moves jobDir captionFile bank released.
      run exampleEnv exampleWorld = Some (Inr Success, w')
    \<and> trace w' = trace exampleWorld @ prep @ moves @
        [WriteFile (pathJoin jobDir ''caption.txt'') captionFile None,
         WriteFile (captionsPath (rootDir exampleEnv)) bank None,
         Rm (lockFilePath (rootDir exampleEnv)) released]
    \<and> (\<forall>ev \<in> set prep. \<not> isMove ev \<and> \<not> isWrite ev)
    \<and> (\<forall>ev \<in> set moves. isMove ev)
    \<and> length (filter isCompletedMove moves) = 4"
proof -
  obtain w' where r: "run exampleEnv exampleWorld = Some (Inr Success, w')"
    using run_example by (cases "run exampleEnv exampleWorld") auto
  obtain evs where t: "trace w' = trace exampleWorld @ evs"
    and s: "Inr Success = (Inr Success :: run_error + outcome)
            \<or> (\<exists>content. WriteFile (captionsPath (rootDir exampleEnv)) content None \<in> set evs) \<longrightarrow>
          (\<exists>selectedMedia captionText nextCaptions selectedHashtags normalizedCaptions
              prep moves jobDir released.
              selectMedia exampleEnv = Inr (Some selectedMedia)
            \<and> pickCaption (drawCaption exampleEnv) (captionTime exampleEnv) normalizedCaptions =
                Inr (captionText, nextCaptions)
            \<and> length nextCaptions = length normalizedCaptions
            \<and> evs = prep @ moves @
                [WriteFile (pathJoin jobDir ''caption.txt'')
                   (captionText @ [CHR 0x0A] @ joinSpace selectedHashtags @ [CHR 0x0A]) None,
                 WriteFile (captionsPath (rootDir exampleEnv))
                   (JSON_stringify exampleEnv (bankJson nextCaptions) @ [CHR 0x0A]) None,
                 Rm (lockFilePath (rootDir exampleEnv)) released]
            \<and> (\<forall>ev \<in> set prep. \<not> isMove ev \<and> \<not> isWrite ev)
            \<and> (\<forall>ev \<in> set moves. isMove ev)
            \<and> length (filter isCompletedMove moves) = length selectedMedia
            \<and> (Inr Success = (Inr Success :: run_error + outcome) \<longrightarrow> released = None))"
    using bank_persisted_last [OF r] by (elim exE conjE)
  have "Inr Success = (Inr Success :: run_error + outcome)
        \<or> (\<exists>content. WriteFile (captionsPath (rootDir exampleEnv)) content None \<in> set evs)"
    by simp
  with s obtain selectedMedia captionText nextCaptions selectedHashtags prep moves jobDir released
    where sm: "selectMedia exampleEnv = Inr (Some selectedMedia)"
      and e: "evs = prep @ moves @
                [WriteFile (pathJoin jobDir ''caption.txt'')
                   (captionText @ [CHR 0x0A] @ joinSpace selectedHashtags @ [CHR 0x0A]) None,
                 WriteFile (captionsPath (rootDir exampleEnv))
                   (JSON_stringify exampleEnv (bankJson nextCaptions) @ [CHR 0x0A]) None,
                 Rm (lockFilePath (rootDir exampleEnv)) released]"
      and p: "\<forall>ev \<in> set prep. \<not> isMove ev \<and> \<not> isWrite ev"
      and m: "\<forall>ev \<in> set moves. isMove ev"
        "length (filter isCompletedMove moves) = length selectedMedia"
    by blast
  have "length selectedMedia = 4" using sm by (auto simp add: selectMedia_example)
  then have four: "length (filter isCompletedMove moves) = 4" using m(2) by simp
  have "trace w' = trace exampleWorld @ prep @ moves @
        [WriteFile (pathJoin jobDir ''caption.txt'')
           (captionText @ [CHR 0x0A] @ joinSpace selectedHashtags @ [CHR 0x0A]) None,
         WriteFile (captionsPath (rootDir exampleEnv))
           (JSON_stringify exampleEnv (bankJson nextCaptions) @ [CHR 0x0A]) None,
         Rm (lockFilePath (rootDir exampleEnv)) released]"
    using t e by simp
  then show ?thesis using r p m(1) four by blast
qed

end
